theory Spec2Isabelle
  imports Main "HOL-Library.Sublist" "HOL-Library.Multiset"
begin

section \<open>Strings of the host language\<close>

text \<open>
  The function under verification is \<^verbatim>\<open>searchAhaResources\<close> of \<^verbatim>\<open>server.js\<close>.
  A JavaScript string is a sequence of UTF-16 code units. The embedding uses
  \<^typ>\<open>string\<close>, read as a sequence of code units below 256 (the Latin-1 range, which
  \<^verbatim>\<open>toLowerCase\<close> maps into itself); larger code units are outside the model.
\<close>

text \<open>
  \<^verbatim>\<open>\s\<close> and \<^verbatim>\<open>trim()\<close> use the same set, WhiteSpace and LineTerminator of
  ECMAScript: below 256 these are TAB, LF, VT, FF, CR, SP and NBSP.
\<close>

definition isWhiteSpace :: "char \<Rightarrow> bool" where
  "isWhiteSpace c \<longleftrightarrow>
     c = CHR 0x09 \<or> c = CHR 0x0A \<or> c = CHR 0x0B \<or> c = CHR 0x0C \<or> c = CHR 0x0D \<or>
     c = CHR 0x20 \<or> c = CHR 0xA0"

text \<open>
  \<^verbatim>\<open>toLowerCase()\<close> on one code unit: A-Z and the Latin-1 capitals
  (0xC0-0xDE without the multiplication sign 0xD7) move up by 32.
\<close>

definition toLowerChar :: "char \<Rightarrow> char" where
  "toLowerChar c =
     (let n = (of_char c :: nat)
      in if (65 \<le> n \<and> n \<le> 90) \<or> (192 \<le> n \<and> n \<le> 222 \<and> n \<noteq> 215)
         then char_of (n + 32) else c)"

definition toLowerCase :: "string \<Rightarrow> string" where
  "toLowerCase s = map toLowerChar s"

definition trim :: "string \<Rightarrow> string" where
  "trim s = rev (dropWhile isWhiteSpace (rev (dropWhile isWhiteSpace s)))"

text \<open>\<^verbatim>\<open>s.includes(t)\<close>: \<open>t\<close> occurs in \<open>s\<close> as a contiguous run of code units.\<close>

fun str_includes :: "string \<Rightarrow> string \<Rightarrow> bool" where
  "str_includes [] t = (t = [])"
| "str_includes (c # cs) t = (prefix t (c # cs) \<or> str_includes cs t)"

text \<open>\<^verbatim>\<open>xs.join(sep)\<close> on an array of strings.\<close>

fun join :: "string \<Rightarrow> string list \<Rightarrow> string" where
  "join sep [] = []"
| "join sep [x] = x"
| "join sep (x # y # ys) = x @ sep @ join sep (y # ys)"

text \<open>
  \<^verbatim>\<open>s.split(/\s+/)\<close>: every maximal run of white space is one separator; a run at
  the start or at the end of \<open>s\<close> leaves an empty first or last piece, and a string
  without white space (the empty one too) is its own single piece.
\<close>

fun split_ws :: "string \<Rightarrow> bool \<Rightarrow> string \<Rightarrow> string list" where
  "split_ws cur in_sep [] = [rev cur]"
| "split_ws cur in_sep (c # cs) =
     (if isWhiteSpace c
      then (if in_sep then split_ws [] True cs else rev cur # split_ws [] True cs)
      else split_ws (c # cur) False cs)"

definition split_whitespace :: "string \<Rightarrow> string list" where
  "split_whitespace s = split_ws [] False s"

section \<open>Documents and the searchable text\<close>

text \<open>
  One entry of \<^verbatim>\<open>ahaResources.resources\<close>. The fields \<^verbatim>\<open>keywords\<close> and
  \<^verbatim>\<open>url\<close> may be absent; \<^verbatim>\<open>id\<close> and \<^verbatim>\<open>keywords\<close> are written \<open>id_r\<close> and \<open>keywords_r\<close>.
\<close>

record resource =
  id_r :: string
  title :: string
  category :: string
  content :: string
  keywords_r :: "string list option"
  url :: "string option"

definition LF :: char where
  "LF = CHR 0x0A"

text \<open>
  \<^verbatim>\<open>resource.keywords?.join(" ") || ""\<close>: the joined keywords, and the empty string
  when the field is absent (or the join is empty).
\<close>

definition keywordsText :: "resource \<Rightarrow> string" where
  "keywordsText r = (case keywords_r r of None \<Rightarrow> [] | Some ks \<Rightarrow> join '' '' ks)"

text \<open>
  The template literal of the source, with its line breaks and indentation:
  a line feed and six spaces before the title, a space, a line feed and six spaces
  before each later field, a line feed and four spaces at the end.
\<close>

definition searchableText :: "resource \<Rightarrow> string" where
  "searchableText r =
     toLowerCase
       ([LF] @ ''      '' @ title r @ '' '' @
        [LF] @ ''      '' @ category r @ '' '' @
        [LF] @ ''      '' @ content r @ '' '' @
        [LF] @ ''      '' @ keywordsText r @
        [LF] @ ''    '')"

text \<open>The exact-phrase bonus: \<^verbatim>\<open>if (searchableText.includes(queryLower)) score += 100\<close>.\<close>

definition phraseScore :: "string \<Rightarrow> resource \<Rightarrow> int" where
  "phraseScore queryLower r = (if str_includes (searchableText r) queryLower then 100 else 0)"

definition titleScore :: "string \<Rightarrow> resource \<Rightarrow> int" where
  "titleScore queryLower r = (if str_includes (toLowerCase (title r)) queryLower then 50 else 0)"

definition categoryScore :: "string \<Rightarrow> resource \<Rightarrow> int" where
  "categoryScore queryLower r =
     (if str_includes (toLowerCase (category r)) queryLower then 20 else 0)"

section \<open>The regular expressions built from query terms\<close>

text \<open>
  The source counts a term in the searchable text with
  \<^verbatim>\<open>searchableText.match(new RegExp(term, "g"))\<close>: the term is the \<^emph>\<open>pattern\<close>.
  \<^verbatim>\<open>RegExp\<close> belongs to the host, not to the repository; it is modelled here after
  ECMAScript (with the Annex B grammar, no flags but \<^verbatim>\<open>g\<close>) for the patterns built
  from pattern characters, \<^verbatim>\<open>.\<close>, character classes \<^verbatim>\<open>[...]\<close>, groups
  \<^verbatim>\<open>(...)\<close>, alternation and the quantifiers \<^verbatim>\<open>*\<close>, \<^verbatim>\<open>+\<close>, \<^verbatim>\<open>?\<close> (greedy
  and lazy). A pattern that uses a backslash, \<^verbatim>\<open>^\<close>, \<^verbatim>\<open>$\<close>, a brace or a group
  specifier \<^verbatim>\<open>(?\<close> is outside the model: for it the result \<open>OutsideModel\<close> says
  that the model does not know what the host does.
\<close>

datatype failure = SyntaxError | OutsideModel

datatype regex =
    Empty
  | Chr char
  | Dot
  | Class "(char \<times> char) list"
  | Seq regex regex
  | Alt regex regex
  | Opt bool regex
  | Star bool regex
  | Plus bool regex

definition isLineTerminator :: "char \<Rightarrow> bool" where
  "isLineTerminator c \<longleftrightarrow> c = CHR 0x0A \<or> c = CHR 0x0D"

text \<open>A class is a list of ranges of code units; a single character is the range from itself to itself.\<close>

definition inClass :: "(char \<times> char) list \<Rightarrow> char \<Rightarrow> bool" where
  "inClass rs c =
     list_ex (\<lambda>(a, b). (of_char a :: nat) \<le> of_char c \<and> (of_char c :: nat) \<le> of_char b) rs"

fun weight :: "regex \<Rightarrow> nat" where
  "weight (Seq r1 r2) = Suc (weight r1 + weight r2)"
| "weight (Alt r1 r2) = Suc (weight r1 + weight r2)"
| "weight (Opt g r) = Suc (weight r)"
| "weight (Star g r) = Suc (weight r)"
| "weight (Plus g r) = Suc (Suc (weight r))"
| "weight _ = 0"

text \<open>
  The backtracking matcher. \<open>ends r s\<close> lists, in the order in which backtracking
  tries them, the remainders of the input \<open>s\<close> after each way of matching \<open>r\<close> at the
  start of \<open>s\<close>; the match that \<^verbatim>\<open>exec\<close> reports is the first one. The flag of a
  quantifier is \<open>True\<close> for greedy. An iteration of \<^verbatim>\<open>*\<close> or \<^verbatim>\<open>?\<close> that consumes
  nothing is rejected (the empty check of RepeatMatcher); a remainder is never longer
  than the input, so "consumes something" is written \<open>length y < length s\<close>.
\<close>

function ends :: "regex \<Rightarrow> string \<Rightarrow> string list" where
  "ends Empty s = [s]"
| "ends (Chr c) s = (case s of [] \<Rightarrow> [] | x # xs \<Rightarrow> if x = c then [xs] else [])"
| "ends Dot s = (case s of [] \<Rightarrow> [] | x # xs \<Rightarrow> if isLineTerminator x then [] else [xs])"
| "ends (Class rs) s = (case s of [] \<Rightarrow> [] | x # xs \<Rightarrow> if inClass rs x then [xs] else [])"
| "ends (Seq r1 r2) s = concat (map (ends r2) (ends r1 s))"
| "ends (Alt r1 r2) s = ends r1 s @ ends r2 s"
| "ends (Opt g r) s =
     (let ys = filter (\<lambda>y. length y < length s) (ends r s)
      in if g then ys @ [s] else s # ys)"
| "ends (Star g r) s =
     (let ys = concat (map (ends (Star g r)) (filter (\<lambda>y. length y < length s) (ends r s)))
      in if g then ys @ [s] else s # ys)"
| "ends (Plus g r) s = concat (map (ends (Star g r)) (ends r s))"
  by pat_completeness auto
termination
  by (relation "measures [\<lambda>(r, s). weight r, \<lambda>(r, s). length s]") auto

declare ends.simps(8) [simp del]

text \<open>
  \<^verbatim>\<open>text.match(re)\<close> with the flag \<^verbatim>\<open>g\<close>, counted: \<open>s\<close> is the text from
  \<^verbatim>\<open>lastIndex\<close> on. Without a match at this index the search moves one code unit on;
  after a match it continues behind the match, and one code unit further when the
  match was empty. The attempt at the very end of the text is made, too.
\<close>

function matchCount :: "regex \<Rightarrow> string \<Rightarrow> nat" where
  "matchCount r s =
     (case ends r s of
        [] \<Rightarrow> (case s of [] \<Rightarrow> 0 | _ # s' \<Rightarrow> matchCount r s')
      | e # _ \<Rightarrow>
          Suc (if length e < length s then matchCount r e
               else (case s of [] \<Rightarrow> 0 | _ # s' \<Rightarrow> matchCount r s')))"
  by pat_completeness auto
termination
  by (relation "measure (\<lambda>(r, s). length s)") auto

declare matchCount.simps [simp del]

subsection \<open>Parsing a pattern\<close>

text \<open>
  The parser reads the pattern from left to right. Its state holds the enclosing open
  groups, the alternatives of the current group that are complete, the terms of the
  current alternative (the most recent first), whether the most recent term can take
  a quantifier, and the characters of an open class.
\<close>

datatype lastk = NoAtom | AtomL | QuantL

record pstate =
  outer :: "(regex option \<times> regex list) list"
  alts :: "regex option"
  cur :: "regex list"
  lastk :: lastk
  cls :: "string option"

definition seqOf :: "regex list \<Rightarrow> regex" where
  "seqOf ts = foldr Seq ts Empty"

definition disjunction :: "regex option \<Rightarrow> regex list \<Rightarrow> regex" where
  "disjunction a c = (case a of None \<Rightarrow> seqOf (rev c) | Some d \<Rightarrow> Alt d (seqOf (rev c)))"

text \<open>
  The body of a class: \<^verbatim>\<open>a-b\<close> is a range, and a range whose bounds are out of
  order is an early error (\<open>None\<close>); a dash that does not stand between two atoms is
  an atom itself.
\<close>

fun classRanges :: "string \<Rightarrow> (char \<times> char) list option" where
  "classRanges (a # d # b # rest) =
     (if d = CHR ''-''
      then (if (of_char b :: nat) < of_char a then None
            else map_option ((#) (a, b)) (classRanges rest))
      else map_option ((#) (a, a)) (classRanges (d # b # rest)))"
| "classRanges (a # rest) = map_option ((#) (a, a)) (classRanges rest)"
| "classRanges [] = Some []"

definition quantify :: "char \<Rightarrow> regex \<Rightarrow> regex" where
  "quantify c a =
     (if c = CHR ''*'' then Star True a else if c = CHR ''+'' then Plus True a else Opt True a)"

fun lazy :: "regex \<Rightarrow> regex" where
  "lazy (Star g a) = Star False a"
| "lazy (Plus g a) = Plus False a"
| "lazy (Opt g a) = Opt False a"
| "lazy r = r"

text \<open>
  One character of the pattern. Inside a class only \<^verbatim>\<open>]\<close> is special. Outside,
  \<^verbatim>\<open>)\<close> without an open group and a quantifier with nothing to repeat are syntax
  errors; \<^verbatim>\<open>?\<close> directly after a quantifier makes it lazy; every character that is
  not a syntax character of the pattern language (\<^verbatim>\<open>]\<close> among them) matches itself.
\<close>

definition pstep :: "pstate \<Rightarrow> char \<Rightarrow> failure + pstate" where
  "pstep st c =
     (case cls st of
        Some body \<Rightarrow>
          if c = CHR '']''
          then (case classRanges (rev body) of
                  None \<Rightarrow> Inl SyntaxError
                | Some rs \<Rightarrow> Inr (st\<lparr>cur := Class rs # cur st, lastk := AtomL, cls := None\<rparr>))
          else Inr (st\<lparr>cls := Some (c # body)\<rparr>)
      | None \<Rightarrow>
          if c = CHR ''['' then Inr (st\<lparr>cls := Some []\<rparr>)
          else if c = CHR ''('' then
            Inr (st\<lparr>outer := (alts st, cur st) # outer st, alts := None, cur := [],
                    lastk := NoAtom\<rparr>)
          else if c = CHR '')'' then
            (case outer st of
               [] \<Rightarrow> Inl SyntaxError
             | (a, ts) # rest \<Rightarrow>
                 Inr (st\<lparr>outer := rest, alts := a,
                         cur := disjunction (alts st) (cur st) # ts, lastk := AtomL\<rparr>))
          else if c = CHR ''|'' then
            Inr (st\<lparr>alts := Some (disjunction (alts st) (cur st)), cur := [], lastk := NoAtom\<rparr>)
          else if c = CHR ''*'' \<or> c = CHR ''+'' \<or> c = CHR ''?'' then
            (case cur st of
               [] \<Rightarrow> Inl SyntaxError
             | a # ts \<Rightarrow>
                 (case lastk st of
                    AtomL \<Rightarrow> Inr (st\<lparr>cur := quantify c a # ts, lastk := QuantL\<rparr>)
                  | QuantL \<Rightarrow>
                      if c = CHR ''?'' then Inr (st\<lparr>cur := lazy a # ts, lastk := NoAtom\<rparr>)
                      else Inl SyntaxError
                  | NoAtom \<Rightarrow> Inl SyntaxError))
          else Inr (st\<lparr>cur := (if c = CHR ''.'' then Dot else Chr c) # cur st,
                       lastk := AtomL\<rparr>))"

fun parse :: "pstate \<Rightarrow> string \<Rightarrow> failure + pstate" where
  "parse st [] = Inr st"
| "parse st (c # cs) = (case pstep st c of Inl e \<Rightarrow> Inl e | Inr st' \<Rightarrow> parse st' cs)"

text \<open>At the end of the pattern an open class or an open group is a syntax error.\<close>

definition finish :: "pstate \<Rightarrow> failure + regex" where
  "finish st =
     (if cls st \<noteq> None \<or> outer st \<noteq> [] then Inl SyntaxError
      else Inr (disjunction (alts st) (cur st)))"

definition initial :: pstate where
  "initial = \<lparr>outer = [], alts = None, cur = [], lastk = NoAtom, cls = None\<rparr>"

definition outsideModel :: "string \<Rightarrow> bool" where
  "outsideModel p \<longleftrightarrow>
     list_ex (\<lambda>c. c = CHR 0x5C \<or> c = CHR ''^'' \<or> c = CHR ''$'' \<or> c = CHR ''{'' \<or> c = CHR ''}'') p
     \<or> str_includes p ''(?''"

text \<open>\<^verbatim>\<open>new RegExp(term, "g")\<close>: the compiled pattern, or the exception.\<close>

definition compileRegExp :: "string \<Rightarrow> failure + regex" where
  "compileRegExp p =
     (if outsideModel p then Inl OutsideModel
      else case parse initial p of Inl e \<Rightarrow> Inl e | Inr st \<Rightarrow> finish st)"

section \<open>Scoring and ranking\<close>

text \<open>
  \<^verbatim>\<open>(searchableText.match(new RegExp(term, "g")) || []).length\<close>: the number of
  matches of the term, as a pattern, in the text, or the exception of the constructor.
\<close>

definition termMatches :: "string \<Rightarrow> string \<Rightarrow> failure + nat" where
  "termMatches text term =
     (case compileRegExp term of Inl e \<Rightarrow> Inl e | Inr r \<Rightarrow> Inr (matchCount r text))"

text \<open>
  The search reaches the host's regular expressions only through this count. The
  functions below take the count as their first argument \<open>re\<close> (text first, term
  second), so that what does not depend on how a pattern matches is proved for every
  such function, also for the patterns outside the model; the search of the source
  is \<open>searchAhaResources termMatches\<close>.
\<close>

type_synonym matcher = "string \<Rightarrow> string \<Rightarrow> failure + nat"

text \<open>
  The \<^verbatim>\<open>forEach\<close> over the query terms: a term longer than two code units adds
  five times its matches; the first term whose pattern does not compile ends the
  loop with the exception.
\<close>

fun termScore :: "matcher \<Rightarrow> string \<Rightarrow> string list \<Rightarrow> failure + int" where
  "termScore re text [] = Inr 0"
| "termScore re text (t # ts) =
     (if length t > 2
      then (case re text t of
              Inl e \<Rightarrow> Inl e
            | Inr n \<Rightarrow> (case termScore re text ts of
                          Inl e \<Rightarrow> Inl e
                        | Inr m \<Rightarrow> Inr (int n * 5 + m)))
      else termScore re text ts)"

text \<open>
  The keywords that count: the keyword, in lower case, includes the whole query or
  one of its terms. An absent keyword list adds nothing.
\<close>

definition keywordMatches :: "string \<Rightarrow> string list \<Rightarrow> string list \<Rightarrow> nat" where
  "keywordMatches queryLower queryTerms ks =
     length (filter (\<lambda>keyword.
        str_includes (toLowerCase keyword) queryLower \<or>
        list_ex (\<lambda>t. str_includes (toLowerCase keyword) t) queryTerms) ks)"

definition keywordScore :: "string \<Rightarrow> string list \<Rightarrow> resource \<Rightarrow> int" where
  "keywordScore queryLower queryTerms r =
     (case keywords_r r of None \<Rightarrow> 0
      | Some ks \<Rightarrow> int (keywordMatches queryLower queryTerms ks) * 30)"

text \<open>
  The body of the \<^verbatim>\<open>map\<close> callback: the score of one resource. The host adds the
  contributions as numbers; they are integers far below \<open>2 ^ 53\<close>, where its
  arithmetic is exact, so the score is an \<^typ>\<open>int\<close>.
\<close>

definition scoreResource :: "matcher \<Rightarrow> string \<Rightarrow> string list \<Rightarrow> resource \<Rightarrow> failure + int" where
  "scoreResource re queryLower queryTerms r =
     (case termScore re (searchableText r) queryTerms of
        Inl e \<Rightarrow> Inl e
      | Inr t \<Rightarrow>
          Inr (phraseScore queryLower r + titleScore queryLower r
               + keywordScore queryLower queryTerms r + t + categoryScore queryLower r))"

text \<open>\<^verbatim>\<open>resources.map(resource => ({ resource, score }))\<close>, in order, stopping at an exception.\<close>

fun scoreAll ::
  "matcher \<Rightarrow> string \<Rightarrow> string list \<Rightarrow> resource list \<Rightarrow> failure + (resource \<times> int) list" where
  "scoreAll re queryLower queryTerms [] = Inr []"
| "scoreAll re queryLower queryTerms (r # rs) =
     (case scoreResource re queryLower queryTerms r of
        Inl e \<Rightarrow> Inl e
      | Inr sc \<Rightarrow> (case scoreAll re queryLower queryTerms rs of
                    Inl e \<Rightarrow> Inl e
                  | Inr items \<Rightarrow> Inr ((r, sc) # items)))"

text \<open>
  \<^verbatim>\<open>Array.prototype.sort(comparefn)\<close> is stable: an element goes before the first
  element that the comparator does not put before it.
\<close>

fun insertBy :: "('a \<Rightarrow> 'a \<Rightarrow> int) \<Rightarrow> 'a \<Rightarrow> 'a list \<Rightarrow> 'a list" where
  "insertBy cmp x [] = [x]"
| "insertBy cmp x (y # ys) = (if cmp x y \<le> 0 then x # y # ys else y # insertBy cmp x ys)"

definition sortBy :: "('a \<Rightarrow> 'a \<Rightarrow> int) \<Rightarrow> 'a list \<Rightarrow> 'a list" where
  "sortBy cmp xs = foldr (insertBy cmp) xs []"

definition queryLower_of :: "string \<Rightarrow> string" where
  "queryLower_of query = trim (toLowerCase query)"

definition queryTerms_of :: "string \<Rightarrow> string list" where
  "queryTerms_of query = filter (\<lambda>t. length t > 0) (split_whitespace (queryLower_of query))"

text \<open>
  \<^verbatim>\<open>searchAhaResources(query)\<close>; the module-level \<^verbatim>\<open>ahaResources.resources\<close> is the
  second argument.
\<close>

definition searchAhaResources :: "matcher \<Rightarrow> string \<Rightarrow> resource list \<Rightarrow> failure + resource list" where
  "searchAhaResources re query resources =
     (if query = [] \<or> length (trim query) = 0 then Inr []
      else case scoreAll re (queryLower_of query) (queryTerms_of query) resources of
             Inl e \<Rightarrow> Inl e
           | Inr scoredResources \<Rightarrow>
               Inr (map fst
                     (sortBy (\<lambda>a b. snd b - snd a)
                       (filter (\<lambda>item. snd item > 0) scoredResources))))"

section \<open>The collection as an array in the heap\<close>

text \<open>
  \<^verbatim>\<open>Array.prototype.sort\<close> sorts in place, while \<^verbatim>\<open>map\<close> and \<^verbatim>\<open>filter\<close> build new
  arrays. To see what the search does to the array it is given, the same function is
  written once more over a heap: resource objects and arrays live at addresses, an
  array holds references to resources (\<open>ResRef\<close>) or the objects
  \<^verbatim>\<open>{ resource, score }\<close> built by the first \<^verbatim>\<open>map\<close> (\<open>Item\<close>, kept by value: the code
  never assigns to one).
\<close>

type_synonym ref = nat

datatype cell = ResRef ref | Item ref int

record heap =
  objects :: "ref \<Rightarrow> resource option"
  arrays :: "ref \<Rightarrow> cell list option"
  fresh :: ref

fun cellRef :: "cell \<Rightarrow> ref" where
  "cellRef (ResRef p) = p"
| "cellRef (Item p sc) = p"

fun cellScore :: "cell \<Rightarrow> int" where
  "cellScore (ResRef p) = 0"
| "cellScore (Item p sc) = sc"

definition newArray :: "cell list \<Rightarrow> heap \<Rightarrow> ref \<times> heap" where
  "newArray cells h =
     (fresh h, h\<lparr>arrays := (arrays h)(fresh h \<mapsto> cells), fresh := Suc (fresh h)\<rparr>)"

definition readArray :: "heap \<Rightarrow> ref \<Rightarrow> cell list" where
  "readArray h a = (case arrays h a of None \<Rightarrow> [] | Some cells \<Rightarrow> cells)"

definition sortInPlace :: "(cell \<Rightarrow> cell \<Rightarrow> int) \<Rightarrow> ref \<Rightarrow> heap \<Rightarrow> heap" where
  "sortInPlace cmp a h = h\<lparr>arrays := (arrays h)(a \<mapsto> sortBy cmp (readArray h a))\<rparr>"

text \<open>
  The first \<^verbatim>\<open>map\<close>, reading each resource through its reference. An array cell
  that is not a reference to a resource object is not a well-formed collection.
\<close>

fun scoreCells ::
  "matcher \<Rightarrow> string \<Rightarrow> string list \<Rightarrow> heap \<Rightarrow> cell list \<Rightarrow> failure + cell list" where
  "scoreCells re queryLower queryTerms h [] = Inr []"
| "scoreCells re queryLower queryTerms h (c # cs) =
     (case c of
        Item p sc \<Rightarrow> Inl OutsideModel
      | ResRef p \<Rightarrow>
          (case objects h p of
             None \<Rightarrow> Inl OutsideModel
           | Some r \<Rightarrow>
               (case scoreResource re queryLower queryTerms r of
                  Inl e \<Rightarrow> Inl e
                | Inr sc \<Rightarrow>
                    (case scoreCells re queryLower queryTerms h cs of
                       Inl e \<Rightarrow> Inl e
                     | Inr items \<Rightarrow> Inr (Item p sc # items)))))"

text \<open>
  \<^verbatim>\<open>searchAhaResources\<close> over the heap; \<open>a\<close> is the address of
  \<^verbatim>\<open>ahaResources.resources\<close>. The result is the address of the returned array and the
  heap after the call. When the callback of the first \<^verbatim>\<open>map\<close> throws, the array under
  construction is unreachable and is left out.
\<close>

definition searchAhaResources_h ::
  "matcher \<Rightarrow> string \<Rightarrow> ref \<Rightarrow> heap \<Rightarrow> (failure + ref) \<times> heap" where
  "searchAhaResources_h re query a h =
     (if query = [] \<or> length (trim query) = 0
      then (let (result, h1) = newArray [] h in (Inr result, h1))
      else case scoreCells re (queryLower_of query) (queryTerms_of query) h (readArray h a) of
             Inl e \<Rightarrow> (Inl e, h)
           | Inr items \<Rightarrow>
               (let (scoredResources, h1) = newArray items h;
                    (filtered, h2) =
                       newArray (filter (\<lambda>item. cellScore item > 0) (readArray h1 scoredResources)) h1;
                    h3 = sortInPlace (\<lambda>a b. cellScore b - cellScore a) filtered h2;
                    (result, h4) =
                       newArray (map (\<lambda>item. ResRef (cellRef item)) (readArray h3 filtered)) h3
                in (Inr result, h4)))"

section \<open>Notions used to state the properties\<close>

text \<open>The syntax characters of the pattern language.\<close>

definition isSyntaxChar :: "char \<Rightarrow> bool" where
  "isSyntaxChar c \<longleftrightarrow>
     c = CHR ''^'' \<or> c = CHR ''$'' \<or> c = CHR 0x5C \<or> c = CHR ''.'' \<or> c = CHR ''*'' \<or>
     c = CHR ''+'' \<or> c = CHR ''?'' \<or> c = CHR ''('' \<or> c = CHR '')'' \<or> c = CHR ''['' \<or>
     c = CHR '']'' \<or> c = CHR ''{'' \<or> c = CHR ''}'' \<or> c = CHR ''|''"

definition plainTerm :: "string \<Rightarrow> bool" where
  "plainTerm t = list_all (\<lambda>c. \<not> isSyntaxChar c) t"

text \<open>
  Literal counting, as the specification words it: the number of non-overlapping
  occurrences of \<open>t\<close> as a substring of \<open>s\<close>, found from left to right.
\<close>

function occurrences :: "string \<Rightarrow> string \<Rightarrow> nat" where
  "occurrences t s =
     (if t = [] then 0
      else if prefix t s then Suc (occurrences t (drop (length t) s))
      else (case s of [] \<Rightarrow> 0 | _ # s' \<Rightarrow> occurrences t s'))"
  by pat_completeness auto
termination
  by (relation "measure (\<lambda>(t, s). length s)") (auto simp: prefix_def)

declare occurrences.simps [simp del]

text \<open>The document of the specification's scenario.\<close>

definition heartAttackDoc :: resource where
  "heartAttackDoc =
     \<lparr>id_r = ''1'', title = ''Heart Attack Symptoms'', category = ''Symptoms'',
      content = ''Chest pain, shortness of breath...'',
      keywords_r = Some [''chest pain'', ''heart attack''], url = None\<rparr>"

text \<open>Further documents for concrete instances.\<close>

definition abcDoc :: resource where
  "abcDoc = \<lparr>id_r = ''2'', title = ''T'', category = ''C'', content = ''abc'',
      keywords_r = None, url = None\<rparr>"

definition phraseDoc :: resource where
  "phraseDoc = \<lparr>id_r = ''3'', title = ''A'', category = ''c'', content = ''oh hi there'',
      keywords_r = None, url = None\<rparr>"

definition keywordDoc :: resource where
  "keywordDoc = \<lparr>id_r = ''4'', title = ''B'', category = ''d'', content = ''x'',
      keywords_r = Some [''hi''], url = None\<rparr>"

text \<open>A heap with the scenario's document at address 0 and the collection at address 1.\<close>

definition exampleHeap :: heap where
  "exampleHeap =
     \<lparr>objects = (\<lambda>p. if p = 0 then Some heartAttackDoc else None),
      arrays = (\<lambda>a. if a = 1 then Some [ResRef 0] else None),
      fresh = 2\<rparr>"

section \<open>Properties\<close>

subsection \<open>Substrings, white space and lower case\<close>

lemma str_includes_sublist: "str_includes s t \<longleftrightarrow> sublist t s"
  by (induction s) (auto simp: sublist_Cons_right)

lemma prefix_avoid:
  assumes "prefix t (u @ c # v)" and "c \<notin> set t"
  shows "prefix t u"
  using assms
proof (induction u arbitrary: t)
  case Nil
  then show ?case by (cases t) auto
next
  case (Cons x u)
  then show ?case by (cases t) auto
qed

lemma str_includes_prefix: "prefix t s \<Longrightarrow> str_includes s t"
  by (cases s) auto

lemma includes_skip_char:
  assumes "c \<notin> set t" and "str_includes (a @ c # b) t"
  shows "str_includes a t \<or> str_includes b t"
  using assms
proof (induction a)
  case Nil
  then show ?case by (cases t) auto
next
  case (Cons x a)
  from Cons.prems(2) have "prefix t (x # a @ c # b) \<or> str_includes (a @ c # b) t" by simp
  then show ?case
  proof
    assume "prefix t (x # a @ c # b)"
    then have "prefix t ((x # a) @ c # b)" by simp
    then have "prefix t (x # a)" using Cons.prems(1) by (rule prefix_avoid)
    then show ?thesis by simp
  next
    assume "str_includes (a @ c # b) t"
    then have "str_includes a t \<or> str_includes b t" using Cons by blast
    then show ?thesis by auto
  qed
qed

lemma includes_drop_ws:
  assumes "list_all isWhiteSpace w" and "list_all (\<lambda>c. \<not> isWhiteSpace c) t" and "t \<noteq> []"
    and "str_includes (w @ b) t"
  shows "str_includes b t"
  using assms
proof (induction w)
  case Nil
  then show ?case by simp
next
  case (Cons c w)
  have "c \<notin> set t" using Cons.prems(1,2) by (auto simp: list_all_iff)
  then have "\<not> prefix t (c # w @ b)" using Cons.prems(3) by (cases t) auto
  then show ?case using Cons by simp
qed

lemma includes_across_ws:
  assumes "list_all isWhiteSpace w" and "w \<noteq> []" and "list_all (\<lambda>c. \<not> isWhiteSpace c) t" and "t \<noteq> []"
    and "str_includes (a @ w @ b) t"
  shows "str_includes a t \<or> str_includes b t"
proof -
  obtain c w' where w: "w = c # w'" using assms(2) by (cases w) auto
  have "c \<notin> set t" using assms(1,3) w by (auto simp: list_all_iff)
  moreover have "str_includes (a @ c # (w' @ b)) t" using assms(5) w by simp
  ultimately have "str_includes a t \<or> str_includes (w' @ b) t" by (rule includes_skip_char)
  moreover have "list_all isWhiteSpace w'" using assms(1) w by simp
  ultimately show ?thesis using includes_drop_ws assms(3,4) by blast
qed

lemma toLowerChar_ws [simp]: "toLowerChar CHR '' '' = CHR '' ''" "toLowerChar LF = LF"
  by (simp_all add: toLowerChar_def LF_def)

lemma isWhiteSpace_simps [simp]: "isWhiteSpace CHR '' ''" "isWhiteSpace LF"
  by (simp_all add: isWhiteSpace_def LF_def)

lemma isWhiteSpace_of_char:
  "isWhiteSpace c \<longleftrightarrow> (of_char c :: nat) \<in> {9, 10, 11, 12, 13, 32, 160}"
proof -
  have h: "c = d \<longleftrightarrow> (of_char c :: nat) = n" if "(of_char d :: nat) = n" for d n
    using that by auto
  show ?thesis
    unfolding isWhiteSpace_def
    by (simp add: h [of "CHR 0x09" 9] h [of "CHR 0x0A" 10] h [of "CHR 0x0B" 11]
        h [of "CHR 0x0C" 12] h [of "CHR 0x0D" 13] h [of "CHR 0x20" 32] h [of "CHR 0xA0" 160])
qed

lemma of_char_toLowerChar:
  "(of_char (toLowerChar c) :: nat) =
     (let n = of_char c in if (65 \<le> n \<and> n \<le> 90) \<or> (192 \<le> n \<and> n \<le> 222 \<and> n \<noteq> 215) then n + 32 else n)"
  by (simp add: toLowerChar_def Let_def)

lemma toLowerChar_ws_iff: "isWhiteSpace (toLowerChar c) \<longleftrightarrow> isWhiteSpace c"
  unfolding isWhiteSpace_of_char of_char_toLowerChar Let_def by auto

lemma toLowerChar_idem: "toLowerChar (toLowerChar c) = toLowerChar c"
proof -
  have "(of_char (toLowerChar (toLowerChar c)) :: nat) = of_char (toLowerChar c)"
    unfolding of_char_toLowerChar[of "toLowerChar c"] unfolding of_char_toLowerChar Let_def by auto
  then show ?thesis by simp
qed

lemma str_includes_Nil [simp]: "str_includes s []"
  by (cases s) auto

lemma trim_wsFree:
  assumes "list_all (\<lambda>c. \<not> isWhiteSpace c) s"
  shows "trim s = s"
proof -
  have a: "dropWhile isWhiteSpace s = s" using assms by (cases s) auto
  have "list_all (\<lambda>c. \<not> isWhiteSpace c) (rev s)" using assms by (simp add: list_all_iff)
  then have "dropWhile isWhiteSpace (rev s) = rev s" by (cases "rev s") auto
  with a show ?thesis by (simp add: trim_def)
qed

lemma trim_all_ws:
  assumes "list_all isWhiteSpace s"
  shows "trim s = []"
  using assms by (auto simp: trim_def list_all_iff dest: set_dropWhileD)

lemma toLowerCase_wsFree:
  "list_all (\<lambda>c. \<not> isWhiteSpace c) (toLowerCase s) \<longleftrightarrow> list_all (\<lambda>c. \<not> isWhiteSpace c) s"
  by (simp add: toLowerCase_def list_all_iff toLowerChar_ws_iff)

lemma queryLower_wsFree:
  assumes "list_all (\<lambda>c. \<not> isWhiteSpace c) query"
  shows "queryLower_of query = toLowerCase query"
    and "list_all (\<lambda>c. \<not> isWhiteSpace c) (queryLower_of query)"
  using assms by (simp_all add: queryLower_of_def trim_wsFree toLowerCase_wsFree)

lemma searchableText_layout:
  "searchableText r =
     (LF # ''      '') @ toLowerCase (title r) @
     ('' '' @ LF # ''      '') @ toLowerCase (category r) @
     ('' '' @ LF # ''      '') @ toLowerCase (content r) @
     ('' '' @ LF # ''      '') @ toLowerCase (keywordsText r) @
     (LF # ''    '')"
  by (simp add: searchableText_def toLowerCase_def)

subsection \<open>The matcher only consumes input\<close>

text \<open>
  Every remainder that the matcher returns is a suffix of its input, so the test
  \<open>length y < length s\<close> in the matcher is the test that the position has moved.
\<close>

lemma ends_suffix: "y \<in> set (ends r s) \<Longrightarrow> suffix y s"
proof (induction r s arbitrary: y rule: ends.induct)
  case (5 r1 r2 s)
  then obtain z where "z \<in> set (ends r1 s)" "y \<in> set (ends r2 z)" by auto
  then have "suffix z s" "suffix y z" using 5 by blast+
  then show ?case by (rule_tac suffix_order.trans)
next
  case (8 g r s)
  have "y = s \<or> (\<exists>z \<in> set (ends r s). length z < length s \<and> y \<in> set (ends (Star g r) z))"
    using "8.prems" by (subst (asm) ends.simps(8)) (auto simp: Let_def split: if_splits)
  then show ?case
  proof
    assume "y = s" then show ?thesis by simp
  next
    assume "\<exists>z \<in> set (ends r s). length z < length s \<and> y \<in> set (ends (Star g r) z)"
    then obtain z where z: "z \<in> set (ends r s)" "length z < length s" "y \<in> set (ends (Star g r) z)"
      by blast
    have "suffix z s" using "8.IH"(1) z(1) by blast
    moreover have "suffix y z" using "8.IH"(2) z by auto
    ultimately show ?thesis by (rule_tac suffix_order.trans)
  qed
next
  case (9 g r s)
  then obtain z where z: "z \<in> set (ends r s)" "y \<in> set (ends (Star g r) z)" by auto
  then have "suffix z s" "suffix y z" using 9 by blast+
  then show ?case by (rule_tac suffix_order.trans)
qed (auto simp: Let_def suffix_Cons split: list.splits if_splits)

lemma ends_consumed: "y \<in> set (ends r s) \<Longrightarrow> (length y < length s) = (y \<noteq> s)"
  by (auto dest!: ends_suffix simp: suffix_def)

subsection \<open>Terms without syntax characters are matched literally\<close>

lemma str_includes_set: "str_includes s t \<Longrightarrow> set t \<subseteq> set s"
  by (auto simp: str_includes_sublist dest: set_mono_sublist)

lemma plain_inside_model:
  assumes "plainTerm t"
  shows "\<not> outsideModel t"
proof -
  have a: "\<not> isSyntaxChar c" if "c \<in> set t" for c
    using assms that by (simp add: plainTerm_def list_all_iff)
  have "\<not> str_includes t ''(?''"
  proof
    assume "str_includes t ''(?''"
    then have "CHR ''('' \<in> set t" by (auto dest: str_includes_set)
    with a show False by (auto simp: isSyntaxChar_def)
  qed
  moreover have "\<not> list_ex (\<lambda>c. c = CHR 0x5C \<or> c = CHR ''^'' \<or> c = CHR ''$'' \<or> c = CHR ''{'' \<or> c = CHR ''}'') t"
    using a by (auto simp: list_ex_iff isSyntaxChar_def)
  ultimately show ?thesis by (simp add: outsideModel_def)
qed

lemma pstep_plain:
  assumes "cls st = None" and "\<not> isSyntaxChar c"
  shows "pstep st c = Inr (st\<lparr>cur := Chr c # cur st, lastk := AtomL\<rparr>)"
  using assms by (auto simp: pstep_def isSyntaxChar_def)

lemma parse_plain:
  assumes "cls st = None" and "plainTerm t"
  shows "\<exists>st'. parse st t = Inr st' \<and> cur st' = rev (map Chr t) @ cur st \<and>
           outer st' = outer st \<and> alts st' = alts st \<and> cls st' = None"
  using assms
proof (induction t arbitrary: st)
  case Nil
  then show ?case by simp
next
  case (Cons c t)
  let ?st1 = "st\<lparr>cur := Chr c # cur st, lastk := AtomL\<rparr>"
  have c: "\<not> isSyntaxChar c" and t: "plainTerm t"
    using Cons.prems(2) by (simp_all add: plainTerm_def)
  have step: "pstep st c = Inr ?st1" using Cons.prems(1) c by (rule pstep_plain)
  have "cls ?st1 = None" using Cons.prems(1) by simp
  from Cons.IH [OF this t] obtain st' where
    "parse ?st1 t = Inr st'" "cur st' = rev (map Chr t) @ cur ?st1"
    "outer st' = outer ?st1" "alts st' = alts ?st1" "cls st' = None"
    by blast
  then show ?case using step by simp
qed

lemma compile_plain:
  assumes "plainTerm t"
  shows "compileRegExp t = Inr (seqOf (map Chr t))"
proof -
  have "cls initial = None" by (simp add: initial_def)
  from parse_plain [OF this assms] obtain st' where
    p: "parse initial t = Inr st'" and "cur st' = rev (map Chr t) @ cur initial"
    "outer st' = outer initial" "alts st' = alts initial" "cls st' = None"
    by blast
  then have "finish st' = Inr (seqOf (map Chr t))"
    by (simp add: finish_def initial_def disjunction_def)
  with p show ?thesis by (simp add: compileRegExp_def plain_inside_model [OF assms])
qed

lemma ends_literal:
  "ends (seqOf (map Chr t)) s = (if prefix t s then [drop (length t) s] else [])"
proof (induction t arbitrary: s)
  case Nil
  then show ?case by (simp add: seqOf_def)
next
  case (Cons c t)
  have "seqOf (map Chr (c # t)) = Seq (Chr c) (seqOf (map Chr t))" by (simp add: seqOf_def)
  then show ?case using Cons.IH by (cases s) auto
qed

lemma matchCount_literal:
  assumes "t \<noteq> []"
  shows "matchCount (seqOf (map Chr t)) s = occurrences t s"
proof (induction s rule: length_induct)
  case (1 s)
  show ?case
  proof (cases "prefix t s")
    case True
    then have "length t \<le> length s" by (rule prefix_length_le)
    then have less: "length (drop (length t) s) < length s" using assms by (cases t) auto
    have "matchCount (seqOf (map Chr t)) s = Suc (matchCount (seqOf (map Chr t)) (drop (length t) s))"
      using True less by (subst matchCount.simps) (simp add: ends_literal)
    also have "\<dots> = Suc (occurrences t (drop (length t) s))" using 1 less by simp
    also have "\<dots> = occurrences t s" using True assms by (subst (2) occurrences.simps) simp
    finally show ?thesis .
  next
    case False
    show ?thesis
    proof (cases s)
      case Nil
      then show ?thesis using False assms
        by (subst matchCount.simps, subst occurrences.simps) (simp add: ends_literal)
    next
      case (Cons x s')
      then have "matchCount (seqOf (map Chr t)) s = matchCount (seqOf (map Chr t)) s'"
        using False by (subst matchCount.simps) (simp add: ends_literal)
      also have "\<dots> = occurrences t s'" using 1 Cons by simp
      also have "\<dots> = occurrences t s" using False assms Cons by (subst (2) occurrences.simps) simp
      finally show ?thesis .
    qed
  qed
qed

lemma termMatches_plain:
  assumes "plainTerm t" and "t \<noteq> []"
  shows "termMatches text t = Inr (occurrences t text)"
  using assms by (simp add: termMatches_def compile_plain matchCount_literal)

lemma occurrences_pos_iff:
  assumes "t \<noteq> []"
  shows "occurrences t s > 0 \<longleftrightarrow> str_includes s t"
proof (induction s rule: length_induct)
  case (1 s)
  show ?case
  proof (cases "prefix t s")
    case True
    then show ?thesis using assms by (subst occurrences.simps) (simp add: str_includes_prefix)
  next
    case False
    show ?thesis
    proof (cases s)
      case Nil
      then show ?thesis using assms by (subst occurrences.simps) simp
    next
      case (Cons x s')
      have "occurrences t s = occurrences t s'" using False assms Cons by (subst occurrences.simps) simp
      moreover have "str_includes s t = str_includes s' t" using False Cons by simp
      ultimately show ?thesis using 1 Cons by simp
    qed
  qed
qed

subsection \<open>The layout of the searchable text\<close>

text \<open>
  Claim C10. The searchable text is the four fields in lower case with a run of white
  space (a line feed and spaces) before, between and after them. So when a query
  whose normalised form has no white space (a query without white space is one,
  \<open>queryLower_wsFree\<close>) earns the phrase bonus of 100, the normalised query lies
  inside one single field, compared in lower case as the source does: the title, the
  category, the content or the joined keywords. It cannot bridge two fields.
\<close>

theorem searchableText_fields_apart:
  "searchableText r =
     (LF # ''      '') @ toLowerCase (title r) @
     ('' '' @ LF # ''      '') @ toLowerCase (category r) @
     ('' '' @ LF # ''      '') @ toLowerCase (content r) @
     ('' '' @ LF # ''      '') @ toLowerCase (keywordsText r) @
     (LF # ''    '')
   \<and> list_all isWhiteSpace (LF # ''      '')
   \<and> list_all isWhiteSpace ('' '' @ LF # ''      '')
   \<and> list_all isWhiteSpace (LF # ''    '')
   \<and> (list_all (\<lambda>c. \<not> isWhiteSpace c) (queryLower_of query)
        \<and> phraseScore (queryLower_of query) r = 100 \<longrightarrow>
        str_includes (toLowerCase (title r)) (queryLower_of query) \<or>
        str_includes (toLowerCase (category r)) (queryLower_of query) \<or>
        str_includes (toLowerCase (content r)) (queryLower_of query) \<or>
        str_includes (toLowerCase (keywordsText r)) (queryLower_of query))"
proof -
  let ?q = "queryLower_of query"
  let ?wa = "LF # ''      ''" and ?w = "'' '' @ LF # ''      ''" and ?wz = "LF # ''    ''"
  have ws: "list_all isWhiteSpace ?wa" "list_all isWhiteSpace ?w" "list_all isWhiteSpace ?wz"
    by simp_all
  have "str_includes (toLowerCase (title r)) ?q \<or>
        str_includes (toLowerCase (category r)) ?q \<or>
        str_includes (toLowerCase (content r)) ?q \<or>
        str_includes (toLowerCase (keywordsText r)) ?q"
    if qf: "list_all (\<lambda>c. \<not> isWhiteSpace c) ?q" and bonus: "phraseScore ?q r = 100"
  proof (cases "?q = []")
    case True
    then show ?thesis by simp
  next
    case False
    have "str_includes (searchableText r) ?q"
      using bonus by (simp add: phraseScore_def split: if_splits)
    then have 0: "str_includes (?wa @ toLowerCase (title r) @ ?w @ toLowerCase (category r) @ ?w @
        toLowerCase (content r) @ ?w @ toLowerCase (keywordsText r) @ ?wz) ?q"
      by (simp only: searchableText_layout)
    have 1: "str_includes (toLowerCase (title r) @ ?w @ toLowerCase (category r) @ ?w @
        toLowerCase (content r) @ ?w @ toLowerCase (keywordsText r) @ ?wz) ?q"
      by (rule includes_drop_ws [OF ws(1) qf False 0])
    have 2: "str_includes (toLowerCase (title r)) ?q \<or>
        str_includes (toLowerCase (category r) @ ?w @
          toLowerCase (content r) @ ?w @ toLowerCase (keywordsText r) @ ?wz) ?q"
      by (rule includes_across_ws [OF ws(2) _ qf False 1]) simp
    have 3: "str_includes (toLowerCase (category r)) ?q \<or>
        str_includes (toLowerCase (content r) @ ?w @ toLowerCase (keywordsText r) @ ?wz) ?q"
      if "str_includes (toLowerCase (category r) @ ?w @
          toLowerCase (content r) @ ?w @ toLowerCase (keywordsText r) @ ?wz) ?q"
      by (rule includes_across_ws [OF ws(2) _ qf False that]) simp
    have 4: "str_includes (toLowerCase (content r)) ?q \<or>
        str_includes (toLowerCase (keywordsText r) @ ?wz) ?q"
      if "str_includes (toLowerCase (content r) @ ?w @ toLowerCase (keywordsText r) @ ?wz) ?q"
      by (rule includes_across_ws [OF ws(2) _ qf False that]) simp
    have 5: "str_includes (toLowerCase (keywordsText r)) ?q"
      if h: "str_includes (toLowerCase (keywordsText r) @ ?wz) ?q"
    proof -
      have h': "str_includes (toLowerCase (keywordsText r) @ ?wz @ []) ?q" using h by simp
      have "str_includes (toLowerCase (keywordsText r)) ?q \<or> str_includes [] ?q"
        by (rule includes_across_ws [OF ws(3) _ qf False h']) simp
      then show ?thesis using False by simp
    qed
    from 2 3 4 5 show ?thesis by blast
  qed
  with ws show ?thesis by (simp only: searchableText_layout [symmetric]) blast
qed

text \<open>The theorem at the query \<^verbatim>\<open>Attack\<close> and the scenario's document: the bonus is earned in the title.\<close>

theorem searchableText_fields_apart_witness:
  "list_all (\<lambda>c. \<not> isWhiteSpace c) (queryLower_of ''Attack'')
   \<and> phraseScore (queryLower_of ''Attack'') heartAttackDoc = 100
   \<and> (str_includes (toLowerCase (title heartAttackDoc)) (queryLower_of ''Attack'') \<or>
      str_includes (toLowerCase (category heartAttackDoc)) (queryLower_of ''Attack'') \<or>
      str_includes (toLowerCase (content heartAttackDoc)) (queryLower_of ''Attack'') \<or>
      str_includes (toLowerCase (keywordsText heartAttackDoc)) (queryLower_of ''Attack''))"
proof -
  have h: "list_all (\<lambda>c. \<not> isWhiteSpace c) (queryLower_of ''Attack'')
      \<and> phraseScore (queryLower_of ''Attack'') heartAttackDoc = 100"
    by code_simp
  with searchableText_fields_apart [of heartAttackDoc "''Attack''"]
  have "str_includes (toLowerCase (title heartAttackDoc)) (queryLower_of ''Attack'') \<or>
      str_includes (toLowerCase (category heartAttackDoc)) (queryLower_of ''Attack'') \<or>
      str_includes (toLowerCase (content heartAttackDoc)) (queryLower_of ''Attack'') \<or>
      str_includes (toLowerCase (keywordsText heartAttackDoc)) (queryLower_of ''Attack'')"
    by blast
  with h show ?thesis by blast
qed

subsection \<open>Blank queries\<close>

text \<open>
  Claim C5. For the empty query and for a query of white space only, the search
  returns the empty sequence, a normal result, whatever the collection is: the guard
  answers before any document is looked at.
\<close>

theorem blank_query_empty:
  "query = [] \<or> list_all isWhiteSpace query \<Longrightarrow> searchAhaResources re query resources = Inr []"
  by (auto simp: searchAhaResources_def trim_all_ws)

theorem blank_query_empty_witness:
  "(''   '' = [] \<or> list_all isWhiteSpace ''   '')
   \<and> searchAhaResources termMatches ''   '' [heartAttackDoc] = Inr []"
proof -
  have h: "''   '' = [] \<or> list_all isWhiteSpace ''   ''" by (simp add: isWhiteSpace_def)
  from blank_query_empty [OF h, where re = termMatches and resources = "[heartAttackDoc]"] h
  show ?thesis by blast
qed

subsection \<open>The scenario of the specification\<close>

text \<open>
  Claim C2, as amended. For the collection of the one document "Heart Attack
  Symptoms" and the query \<^verbatim>\<open>heart attack\<close> the score is 200, not 180: besides the
  phrase (100), the title (50) and the keyword (30), the terms \<^verbatim>\<open>heart\<close> and
  \<^verbatim>\<open>attack\<close> each occur twice in the searchable text and add 5 per occurrence. The
  document is the sole result.
\<close>

theorem heart_attack_score_200:
  "scoreResource termMatches (queryLower_of ''heart attack'') (queryTerms_of ''heart attack'') heartAttackDoc
     = Inr 200
   \<and> searchAhaResources termMatches ''heart attack'' [heartAttackDoc] = Inr [heartAttackDoc]"
  by code_simp

text \<open>The score of the scenario is not the 180 of the specification.\<close>

theorem heart_attack_score_not_180:
  "scoreResource termMatches (queryLower_of ''heart attack'') (queryTerms_of ''heart attack'') heartAttackDoc
     \<noteq> Inr 180"
  by code_simp

subsection \<open>The term-frequency component\<close>

lemma termScore_nonneg: "termScore re text ts = Inr s \<Longrightarrow> 0 \<le> s"
  by (induction ts arbitrary: s) (auto split: if_splits sum.splits)

lemma termScore_removeAll_short:
  "length t \<le> 2 \<Longrightarrow> termScore re text (removeAll t ts) = termScore re text ts"
  by (induction ts) (auto split: sum.splits)

lemma termScore_zero:
  assumes "\<forall>u \<in> set ts. length u > 2 \<longrightarrow> re text u = Inr 0"
  shows "termScore re text ts = Inr 0"
  using assms by (induction ts) auto

lemma termScore_plain:
  assumes "\<forall>u \<in> set ts. length u > 2 \<longrightarrow> plainTerm u"
  shows "\<exists>s. termScore termMatches text ts = Inr s"
  using assms
proof (induction ts)
  case Nil
  then show ?case by simp
next
  case (Cons u ts)
  then obtain s where s: "termScore termMatches text ts = Inr s" by auto
  show ?case
  proof (cases "length u > 2")
    case True
    then have "plainTerm u" "u \<noteq> []" using Cons.prems by auto
    then have "termMatches text u = Inr (occurrences u text)" by (rule termMatches_plain)
    with s True show ?thesis by simp
  next
    case False
    with s show ?thesis by simp
  qed
qed

text \<open>
  Claim C1 is not met by the code. The term is handed to \<^verbatim>\<open>new RegExp\<close> as a pattern,
  so a query with a term of more than two characters that is not a well-formed
  pattern, such as \<^verbatim>\<open>(ab\<close> or \<^verbatim>\<open>[ab\<close>, makes the search throw a
  \<^verbatim>\<open>SyntaxError\<close> on any collection that is not empty.
\<close>

theorem open_group_throws:
  "searchAhaResources termMatches ''(ab'' [heartAttackDoc] = Inl SyntaxError
   \<and> searchAhaResources termMatches ''[ab'' [heartAttackDoc] = Inl SyntaxError"
  by code_simp

text \<open>
  Claim C3 is not met by the code either, for the same reason: the characters of a
  term are read as a pattern. The query \<^verbatim>\<open>a.c\<close> scores 5 on a document whose text
  has \<^verbatim>\<open>abc\<close> but nowhere the three characters \<^verbatim>\<open>a.c\<close>, and the document is
  returned. (For a term without syntax characters the count is the literal one,
  \<open>termMatches_plain\<close>, and a term of at most two characters adds nothing,
  \<open>termScore_removeAll_short\<close>.)
\<close>

theorem dot_matches_any_character:
  "queryTerms_of ''a.c'' = [''a.c'']
   \<and> scoreResource termMatches (queryLower_of ''a.c'') (queryTerms_of ''a.c'') abcDoc = Inr 5
   \<and> occurrences ''a.c'' (searchableText abcDoc) = 0
   \<and> searchAhaResources termMatches ''a.c'' [abcDoc] = Inr [abcDoc]"
  by code_simp

text \<open>
  Claim C9. The terms are not deduplicated. When a term of more than two characters
  with \<open>m\<close> matches in the text stands \<open>n\<close> times in the list of terms, the
  term-frequency component is \<open>n\<close> times \<open>5 * m\<close> plus what the other terms add.
  The queries \<^verbatim>\<open>heart\<close> and \<^verbatim>\<open>heart heart\<close> give the components 10 and 20 on the
  scenario's document, and different scores.
\<close>

theorem duplicate_terms_add_again:
  "(re blob t = Inr m \<and> length t > 2 \<and> termScore re blob terms = Inr s \<longrightarrow>
      (\<exists>rest. termScore re blob (removeAll t terms) = Inr rest \<and>
         s = int (count_list terms t) * (int m * 5) + rest))
   \<and> queryTerms_of ''heart'' = [''heart'']
   \<and> queryTerms_of ''heart heart'' = [''heart'', ''heart'']
   \<and> termScore termMatches (searchableText heartAttackDoc) (queryTerms_of ''heart'') = Inr 10
   \<and> termScore termMatches (searchableText heartAttackDoc) (queryTerms_of ''heart heart'') = Inr 20
   \<and> scoreResource termMatches (queryLower_of ''heart'') (queryTerms_of ''heart'') heartAttackDoc
       \<noteq> scoreResource termMatches (queryLower_of ''heart heart'') (queryTerms_of ''heart heart'')
             heartAttackDoc"
proof -
  have gen: "\<exists>rest. termScore re blob (removeAll t terms) = Inr rest \<and>
         s = int (count_list terms t) * (int m * 5) + rest"
    if m: "re blob t = Inr m" and long: "length t > 2" and s: "termScore re blob terms = Inr s"
    using s
  proof (induction terms arbitrary: s)
    case Nil
    then show ?case by simp
  next
    case (Cons u us)
    show ?case
    proof (cases "length u > 2")
      case False
      then have "u \<noteq> t" using long by auto
      moreover have "termScore re blob us = Inr s" using Cons.prems False by simp
      ultimately show ?thesis using Cons.IH False by auto
    next
      case True
      then obtain n s' where n: "re blob u = Inr n" and s': "termScore re blob us = Inr s'"
        and eq: "s = int n * 5 + s'"
        using Cons.prems by (auto split: sum.splits)
      from Cons.IH [OF s'] obtain rest where
        rest: "termScore re blob (removeAll t us) = Inr rest" "s' = int (count_list us t) * (int m * 5) + rest"
        by blast
      show ?thesis
      proof (cases "u = t")
        case True
        then have "n = m" using n m by simp
        then show ?thesis using True rest eq by (simp add: algebra_simps)
      next
        case False
        then show ?thesis using True n rest eq by simp
      qed
    qed
  qed
  have c1: "queryTerms_of ''heart'' = [''heart'']" by code_simp
  have c2: "queryTerms_of ''heart heart'' = [''heart'', ''heart'']" by code_simp
  have c3: "termScore termMatches (searchableText heartAttackDoc) (queryTerms_of ''heart'') = Inr 10"
    by code_simp
  have c4: "termScore termMatches (searchableText heartAttackDoc) (queryTerms_of ''heart heart'') = Inr 20"
    by code_simp
  have c5: "scoreResource termMatches (queryLower_of ''heart'') (queryTerms_of ''heart'') heartAttackDoc
       \<noteq> scoreResource termMatches (queryLower_of ''heart heart'') (queryTerms_of ''heart heart'')
             heartAttackDoc"
    by code_simp
  from gen c1 c2 c3 c4 c5 show ?thesis by blast
qed

theorem duplicate_terms_add_again_witness:
  "termMatches (searchableText heartAttackDoc) ''heart'' = Inr 2 \<and> length ''heart'' > 2
   \<and> termScore termMatches (searchableText heartAttackDoc) [''heart'', ''heart''] = Inr 20
   \<and> (\<exists>rest. termScore termMatches (searchableText heartAttackDoc) (removeAll ''heart'' [''heart'', ''heart'']) = Inr rest
        \<and> (20::int) = int (count_list [''heart'', ''heart''] ''heart'') * (int 2 * 5) + rest)"
proof -
  have h: "termMatches (searchableText heartAttackDoc) ''heart'' = Inr 2 \<and> length ''heart'' > 2
   \<and> termScore termMatches (searchableText heartAttackDoc) [''heart'', ''heart''] = Inr 20"
    by code_simp
  with duplicate_terms_add_again
         [where re = termMatches and blob = "searchableText heartAttackDoc" and t = "''heart''"
            and m = 2 and terms = "[''heart'', ''heart'']" and s = 20]
  have "\<exists>rest. termScore termMatches (searchableText heartAttackDoc) (removeAll ''heart'' [''heart'', ''heart'']) = Inr rest
        \<and> (20::int) = int (count_list [''heart'', ''heart''] ''heart'') * (int 2 * 5) + rest"
    by blast
  with h show ?thesis by blast
qed

subsection \<open>The keyword component\<close>

lemma keywordScore_nonneg: "0 \<le> keywordScore ql ts r"
  by (simp add: keywordScore_def split: option.splits)

lemma scoreResource_lower_bound:
  assumes "scoreResource re ql ts r = Inr s"
  shows "phraseScore ql r + keywordScore ql ts r \<le> s"
proof -
  obtain t where t: "termScore re (searchableText r) ts = Inr t"
    and s: "s = phraseScore ql r + titleScore ql r + keywordScore ql ts r + t + categoryScore ql r"
    using assms by (auto simp: scoreResource_def split: sum.splits)
  have "0 \<le> t" using t by (rule termScore_nonneg)
  moreover have "0 \<le> titleScore ql r" "0 \<le> categoryScore ql r"
    by (simp_all add: titleScore_def categoryScore_def)
  ultimately show ?thesis using s by simp
qed

lemma keywordMatches_split:
  assumes "t \<in> set ts"
  shows "keywordMatches ql ts ks =
     length (filter (\<lambda>kw. str_includes (toLowerCase kw) t) ks) +
     length (filter (\<lambda>kw. \<not> str_includes (toLowerCase kw) t \<and>
               (str_includes (toLowerCase kw) ql \<or>
                list_ex (\<lambda>u. str_includes (toLowerCase kw) u) ts)) ks)"
proof -
  let ?P = "\<lambda>kw. str_includes (toLowerCase kw) ql \<or> list_ex (\<lambda>u. str_includes (toLowerCase kw) u) ts"
  let ?Q = "\<lambda>kw. str_includes (toLowerCase kw) t"
  have imp: "?Q kw \<Longrightarrow> ?P kw" for kw using assms by (auto simp: list_ex_iff)
  have "length (filter ?P ks) =
      length (filter ?Q (filter ?P ks)) + length (filter (\<lambda>kw. \<not> ?Q kw) (filter ?P ks))"
    by (simp only: sum_length_filter_compl)
  moreover have "filter ?Q (filter ?P ks) = filter ?Q ks"
    using imp by (auto intro: filter_cong)
  moreover have "filter (\<lambda>kw. \<not> ?Q kw) (filter ?P ks) = filter (\<lambda>kw. \<not> ?Q kw \<and> ?P kw) ks"
    by (auto intro: filter_cong)
  ultimately show ?thesis by (simp add: keywordMatches_def)
qed

text \<open>
  Claim C8. The keyword component has no minimum term length. For a document with a
  keyword list and a query term \<open>t\<close> of at most two characters, the keyword
  component is 30 for each of the \<open>k\<close> keywords that include \<open>t\<close> (compared in lower
  case), plus 30 for each further keyword that matches the query or another term; so
  the score is at least \<open>30 * k\<close>. The same term adds nothing to the term-frequency
  component: dropping it from the terms leaves that component as it is.
\<close>

theorem short_term_counts_for_keywords:
  assumes "keywords_r r = Some ks" and "t \<in> set queryTerms" and "length t \<le> 2"
  shows "keywordScore queryLower queryTerms r =
           30 * int (length (filter (\<lambda>kw. str_includes (toLowerCase kw) t) ks))
         + 30 * int (length (filter (\<lambda>kw. \<not> str_includes (toLowerCase kw) t \<and>
               (str_includes (toLowerCase kw) queryLower \<or>
                list_ex (\<lambda>u. str_includes (toLowerCase kw) u) queryTerms)) ks))
     \<and> termScore re blob (removeAll t queryTerms) = termScore re blob queryTerms
     \<and> (\<forall>s. scoreResource re queryLower queryTerms r = Inr s \<longrightarrow>
           30 * int (length (filter (\<lambda>kw. str_includes (toLowerCase kw) t) ks)) \<le> s)"
proof -
  let ?k = "length (filter (\<lambda>kw. str_includes (toLowerCase kw) t) ks)"
  have a: "keywordScore queryLower queryTerms r =
           30 * int ?k
         + 30 * int (length (filter (\<lambda>kw. \<not> str_includes (toLowerCase kw) t \<and>
               (str_includes (toLowerCase kw) queryLower \<or>
                list_ex (\<lambda>u. str_includes (toLowerCase kw) u) queryTerms)) ks))"
    using assms(1) by (simp add: keywordScore_def keywordMatches_split [OF assms(2)])
  have b: "termScore re blob (removeAll t queryTerms) = termScore re blob queryTerms"
    using assms(3) by (rule termScore_removeAll_short)
  have c: "30 * int ?k \<le> s" if "scoreResource re queryLower queryTerms r = Inr s" for s
  proof -
    have "phraseScore queryLower r + keywordScore queryLower queryTerms r \<le> s"
      using that by (rule scoreResource_lower_bound)
    moreover have "0 \<le> phraseScore queryLower r" by (simp add: phraseScore_def)
    moreover have "30 * int ?k \<le> keywordScore queryLower queryTerms r" using a by simp
    ultimately show ?thesis by linarith
  qed
  from a b c show ?thesis by blast
qed

theorem short_term_counts_for_keywords_witness:
  "keywords_r keywordDoc = Some [''hi''] \<and> ''hi'' \<in> set [''hi'', ''there''] \<and> length ''hi'' \<le> 2
   \<and> keywordScore ''hi there'' [''hi'', ''there''] keywordDoc = 30
   \<and> termScore termMatches ''hi hi hi'' (removeAll ''hi'' [''hi'', ''there'']) = termScore termMatches ''hi hi hi'' [''hi'', ''there'']"
proof -
  have h: "keywords_r keywordDoc = Some [''hi'']" "''hi'' \<in> set [''hi'', ''there'']" "length ''hi'' \<le> 2"
    by (simp_all add: keywordDoc_def)
  have k: "30 * int (length (filter (\<lambda>kw. str_includes (toLowerCase kw) ''hi'') [''hi'']))
         + 30 * int (length (filter (\<lambda>kw. \<not> str_includes (toLowerCase kw) ''hi'' \<and>
               (str_includes (toLowerCase kw) ''hi there'' \<or>
                list_ex (\<lambda>u. str_includes (toLowerCase kw) u) [''hi'', ''there''])) [''hi''])) = 30"
    by code_simp
  from short_term_counts_for_keywords
         [OF h, where queryLower = "''hi there''" and blob = "''hi hi hi''" and re = termMatches] k h
  show ?thesis by simp
qed

subsection \<open>Filtering and ranking\<close>

lemma insertBy_insort_key:
  assumes "\<And>x y. cmp x y \<le> 0 \<longleftrightarrow> key x \<le> key y"
  shows "insertBy cmp x ys = insort_key key x ys"
  by (induction ys) (simp_all add: assms)

lemma sortBy_sort_key:
  assumes "\<And>x y. cmp x y \<le> 0 \<longleftrightarrow> key x \<le> (key y :: int)"
  shows "sortBy cmp xs = sort_key key xs"
proof -
  have "insertBy cmp = insort_key key"
    using insertBy_insort_key [of cmp key, OF assms] by (intro ext)
  then show ?thesis by (simp add: sortBy_def sort_key_def)
qed

lemma insort_key_map:
  "insort_key key (g x) (map g ys) = map g (insort_key (\<lambda>y. key (g y)) x ys)"
  by (induction ys) simp_all

lemma sort_key_map:
  "sort_key key (map g xs) = map g (sort_key (\<lambda>y. key (g y)) xs)"
  by (induction xs) (simp_all add: insort_key_map)

lemma scoreAll_items:
  assumes "scoreAll re ql ts docs = Inr items"
  shows "items = map (\<lambda>d. (d, projr (scoreResource re ql ts d))) docs \<and>
         (\<forall>d \<in> set docs. scoreResource re ql ts d = Inr (projr (scoreResource re ql ts d)))"
  using assms by (induction docs arbitrary: items) (auto split: sum.splits)

lemma scoreAll_total:
  assumes "\<forall>d \<in> set docs. \<exists>s. scoreResource re ql ts d = Inr s"
  shows "\<exists>items. scoreAll re ql ts docs = Inr items"
  using assms by (induction docs) (auto split: sum.splits)

lemma search_is_stable_sort:
  assumes "trim query \<noteq> []" and "searchAhaResources re query docs = Inr out"
  defines "sc \<equiv> \<lambda>d. projr (scoreResource re (queryLower_of query) (queryTerms_of query) d)"
  shows "out = sort_key (\<lambda>d. - sc d) (filter (\<lambda>d. 0 < sc d) docs)"
    and "\<forall>d \<in> set docs. scoreResource re (queryLower_of query) (queryTerms_of query) d = Inr (sc d)"
proof -
  have q: "query \<noteq> []" using assms(1) by (auto simp: trim_def)
  obtain items where items: "scoreAll re (queryLower_of query) (queryTerms_of query) docs = Inr items"
    and out: "out = map fst (sortBy (\<lambda>a b. snd b - snd a) (filter (\<lambda>item. snd item > 0) items))"
    using assms(1,2) q by (auto simp: searchAhaResources_def split: sum.splits)
  from scoreAll_items [OF items] have
    m: "items = map (\<lambda>d. (d, sc d)) docs"
    and ok: "\<forall>d \<in> set docs. scoreResource re (queryLower_of query) (queryTerms_of query) d = Inr (sc d)"
    by (simp_all add: sc_def)
  have f: "filter (\<lambda>item. snd item > 0) items = map (\<lambda>d. (d, sc d)) (filter (\<lambda>d. 0 < sc d) docs)"
    by (simp add: m filter_map comp_def)
  have "sortBy (\<lambda>a b. snd b - snd a) ys = sort_key (\<lambda>a. - snd a) ys" for ys :: "(resource \<times> int) list"
    by (rule sortBy_sort_key) auto
  then have "out = map fst (sort_key (\<lambda>a. - snd a) (map (\<lambda>d. (d, sc d)) (filter (\<lambda>d. 0 < sc d) docs)))"
    using out f by simp
  also have "\<dots> = sort_key (\<lambda>d. - sc d) (filter (\<lambda>d. 0 < sc d) docs)"
    by (simp add: sort_key_map comp_def)
  finally show "out = sort_key (\<lambda>d. - sc d) (filter (\<lambda>d. 0 < sc d) docs)" .
  show "\<forall>d \<in> set docs. scoreResource re (queryLower_of query) (queryTerms_of query) d = Inr (sc d)"
    by (rule ok)
qed

text \<open>
  Claim C4. Let the search return, whatever the host's matching does. For a blank
  query the guard answers: no score is computed and the output is empty. For every
  other query each document of the collection has a computed score, the output
  holds exactly the documents whose score is positive (as often as the collection
  does), the scores descend along the output, and for every score the documents with
  that score stand in the output in the order they have in the collection.
\<close>

theorem results_positive_sorted_stable:
  assumes "searchAhaResources re query docs = Inr out"
  shows "(trim query = [] \<longrightarrow> out = [])
       \<and> (trim query \<noteq> [] \<longrightarrow>
           (\<exists>sc. (\<forall>d \<in> set docs.
                    scoreResource re (queryLower_of query) (queryTerms_of query) d = Inr (sc d))
               \<and> mset out = mset (filter (\<lambda>d. 0 < sc d) docs)
               \<and> sorted_wrt (\<lambda>a b. sc b \<le> sc a) out
               \<and> (\<forall>k. filter (\<lambda>d. sc d = k) out = filter (\<lambda>d. sc d = k \<and> 0 < k) docs)))"
proof (intro conjI impI)
  assume "trim query = []"
  then show "out = []" using assms by (simp add: searchAhaResources_def)
next
  assume nonblank: "trim query \<noteq> []"
  define sc where "sc = (\<lambda>d. projr (scoreResource re (queryLower_of query) (queryTerms_of query) d))"
  have out: "out = sort_key (\<lambda>d. - sc d) (filter (\<lambda>d. 0 < sc d) docs)"
    and ok: "\<forall>d \<in> set docs. scoreResource re (queryLower_of query) (queryTerms_of query) d = Inr (sc d)"
    using search_is_stable_sort [OF nonblank assms] by (simp_all add: sc_def)
  have 1: "mset out = mset (filter (\<lambda>d. 0 < sc d) docs)" by (simp add: out)
  have "sorted (map (\<lambda>d. - sc d) out)" unfolding out by (rule sorted_sort_key)
  then have 2: "sorted_wrt (\<lambda>a b. sc b \<le> sc a) out" by (simp add: sorted_map)
  have 3: "filter (\<lambda>d. sc d = k) out = filter (\<lambda>d. sc d = k \<and> 0 < k) docs" for k
  proof -
    have "filter (\<lambda>d. - sc d = - k) out = filter (\<lambda>d. - sc d = - k) (filter (\<lambda>d. 0 < sc d) docs)"
      unfolding out by (rule sort_key_stable)
    then show ?thesis by (auto simp: conj_commute intro: filter_cong)
  qed
  from ok 1 2 3
  show "\<exists>sc. (\<forall>d \<in> set docs.
                 scoreResource re (queryLower_of query) (queryTerms_of query) d = Inr (sc d))
            \<and> mset out = mset (filter (\<lambda>d. 0 < sc d) docs)
            \<and> sorted_wrt (\<lambda>a b. sc b \<le> sc a) out
            \<and> (\<forall>k. filter (\<lambda>d. sc d = k) out = filter (\<lambda>d. sc d = k \<and> 0 < k) docs)"
    by blast
qed

theorem results_positive_sorted_stable_witness:
  "trim ''hi there'' \<noteq> []
   \<and> searchAhaResources termMatches ''hi there'' [keywordDoc, abcDoc, phraseDoc] = Inr [phraseDoc, keywordDoc]
   \<and> (\<exists>sc. (\<forall>d \<in> set [keywordDoc, abcDoc, phraseDoc].
                 scoreResource termMatches (queryLower_of ''hi there'') (queryTerms_of ''hi there'') d = Inr (sc d))
            \<and> mset [phraseDoc, keywordDoc] = mset (filter (\<lambda>d. 0 < sc d) [keywordDoc, abcDoc, phraseDoc])
            \<and> sorted_wrt (\<lambda>a b. sc b \<le> sc a) [phraseDoc, keywordDoc]
            \<and> (\<forall>k. filter (\<lambda>d. sc d = k) [phraseDoc, keywordDoc]
                   = filter (\<lambda>d. sc d = k \<and> 0 < k) [keywordDoc, abcDoc, phraseDoc]))"
proof -
  have h1: "trim ''hi there'' \<noteq> []" by code_simp
  have h2: "searchAhaResources termMatches ''hi there'' [keywordDoc, abcDoc, phraseDoc] = Inr [phraseDoc, keywordDoc]"
    by code_simp
  from results_positive_sorted_stable [OF h2] h1 h2 show ?thesis by blast
qed

subsection \<open>A phrase in the content against a short keyword term\<close>

lemma str_includes_trans: "str_includes s t \<Longrightarrow> str_includes t u \<Longrightarrow> str_includes s u"
proof -
  assume "str_includes s t" and "str_includes t u"
  then obtain p1 s1 p2 s2 where "s = p1 @ t @ s1" and "t = p2 @ u @ s2"
    by (auto simp: str_includes_sublist sublist_def)
  then have "s = (p1 @ p2) @ u @ (s2 @ s1)" by simp
  then show "str_includes s u" unfolding str_includes_sublist sublist_def by blast
qed

lemma str_includes_middle: "str_includes (a @ b @ c) b"
  by (simp add: str_includes_sublist)

lemma sublist_map_mono: "sublist xs ys \<Longrightarrow> sublist (map f xs) (map f ys)"
  unfolding sublist_def by (metis map_append)

lemma sublist_join: "kw \<in> set ks \<Longrightarrow> sublist kw (join sep ks)"
proof (induction sep ks rule: join.induct)
  case (1 sep)
  then show ?case by simp
next
  case (2 sep x)
  then show ?case by simp
next
  case (3 sep x y ys)
  show ?case
  proof (cases "kw = x")
    case True
    then show ?thesis by simp
  next
    case False
    then have "sublist kw (join sep (y # ys))" using 3 by simp
    then obtain ps ss where "join sep (y # ys) = ps @ kw @ ss" by (auto simp: sublist_def)
    then have "join sep (x # y # ys) = (x @ sep @ ps) @ kw @ ss" by simp
    then show ?thesis unfolding sublist_def by blast
  qed
qed

lemma text_includes_title: "str_includes (searchableText r) (toLowerCase (title r))"
  unfolding searchableText_layout by (rule str_includes_middle)

lemma text_includes_category: "str_includes (searchableText r) (toLowerCase (category r))"
proof -
  have "searchableText r = ((LF # ''      '') @ toLowerCase (title r) @ ('' '' @ LF # ''      ''))
     @ toLowerCase (category r) @ (('' '' @ LF # ''      '') @ toLowerCase (content r) @
     ('' '' @ LF # ''      '') @ toLowerCase (keywordsText r) @ (LF # ''    ''))"
    unfolding searchableText_layout by simp
  then show ?thesis by (simp only: str_includes_middle)
qed

lemma text_includes_content: "str_includes (searchableText r) (toLowerCase (content r))"
proof -
  have "searchableText r = ((LF # ''      '') @ toLowerCase (title r) @ ('' '' @ LF # ''      '')
     @ toLowerCase (category r) @ ('' '' @ LF # ''      '')) @ toLowerCase (content r) @
     (('' '' @ LF # ''      '') @ toLowerCase (keywordsText r) @ (LF # ''    ''))"
    unfolding searchableText_layout by simp
  then show ?thesis by (simp only: str_includes_middle)
qed

lemma text_includes_keyword:
  assumes "keywords_r r = Some ks" and "kw \<in> set ks"
  shows "str_includes (searchableText r) (toLowerCase kw)"
proof -
  have "searchableText r = ((LF # ''      '') @ toLowerCase (title r) @ ('' '' @ LF # ''      '')
     @ toLowerCase (category r) @ ('' '' @ LF # ''      '') @ toLowerCase (content r) @
     ('' '' @ LF # ''      '')) @ toLowerCase (keywordsText r) @ (LF # ''    '')"
    unfolding searchableText_layout by simp
  then have "str_includes (searchableText r) (toLowerCase (keywordsText r))"
    by (simp only: str_includes_middle)
  moreover have "sublist kw (keywordsText r)"
    using assms by (simp add: keywordsText_def sublist_join)
  then have "str_includes (toLowerCase (keywordsText r)) (toLowerCase kw)"
    unfolding str_includes_sublist toLowerCase_def by (rule sublist_map_mono)
  ultimately show ?thesis by (rule str_includes_trans)
qed

lemma scoreResource_plain:
  assumes "\<forall>u \<in> set ts. 2 < length u \<longrightarrow> plainTerm u"
  shows "\<exists>s. scoreResource termMatches ql ts r = Inr s"
  using termScore_plain [OF assms, of "searchableText r"] by (auto simp: scoreResource_def)

lemma search_plain_returns:
  assumes "\<forall>u \<in> set (queryTerms_of query). 2 < length u \<longrightarrow> plainTerm u"
  shows "\<exists>out. searchAhaResources termMatches query docs = Inr out"
proof -
  have "\<forall>d \<in> set docs. \<exists>s. scoreResource termMatches (queryLower_of query) (queryTerms_of query) d = Inr s"
    using scoreResource_plain [OF assms] by blast
  from scoreAll_total [OF this] show ?thesis
    by (auto simp: searchAhaResources_def)
qed

lemma ranked_before:
  assumes out: "out = sort_key (\<lambda>d. - sc d) (filter (\<lambda>d. 0 < sc d) docs)"
    and "A \<in> set docs" "B \<in> set docs" "0 < sc B" "sc B < (sc A :: int)"
  shows "\<exists>xs ys. out = xs @ A # ys \<and> B \<notin> set xs \<and> B \<in> set ys"
proof -
  have inA: "A \<in> set out" and inB: "B \<in> set out" using assms by auto
  from split_list_first [OF inA] obtain xs ys where
    sp: "out = xs @ A # ys" and "A \<notin> set xs" by blast
  have "sorted (map (\<lambda>d. - sc d) out)" unfolding out by (rule sorted_sort_key)
  then have "\<forall>x \<in> set xs. - sc x \<le> - sc A"
    unfolding sp by (auto simp: sorted_append)
  then have nB: "B \<notin> set xs" using assms(5) by auto
  moreover have "B \<noteq> A" using assms(5) by auto
  ultimately have "B \<in> set ys" using inB sp by auto
  with sp nB show ?thesis by blast
qed

text \<open>
  Claim C6, as amended. Let the terms of the query that are longer than two
  characters be free of syntax characters. Let the content of document \<open>A\<close> contain
  the normalised query (compared in lower case). Let document \<open>B\<close> overlap with the
  query in one term \<open>t\<close> of at most two characters only: \<open>t\<close> lies in at least one
  and at most three of the keywords of \<open>B\<close>, the searchable text of \<open>B\<close> does not
  contain the whole query, and no other term occurs in it. Then the search returns,
  the score of \<open>B\<close> is 30 for each keyword with \<open>t\<close>, the score of \<open>A\<close> is at
  least 100 and strictly greater, and \<open>A\<close> stands before \<open>B\<close> in the output.
\<close>

theorem phrase_match_outranks_short_keyword:
  assumes nonblank: "trim query \<noteq> []"
    and plain: "\<forall>u \<in> set (queryTerms_of query). 2 < length u \<longrightarrow> plainTerm u"
    and A: "str_includes (toLowerCase (content A)) (queryLower_of query)"
    and Bk: "keywords_r B = Some ks"
    and t: "t \<in> set (queryTerms_of query)" "length t \<le> 2"
    and k1: "1 \<le> length (filter (\<lambda>kw. str_includes (toLowerCase kw) t) ks)"
    and k3: "length (filter (\<lambda>kw. str_includes (toLowerCase kw) t) ks) \<le> 3"
    and Bq: "\<not> str_includes (searchableText B) (queryLower_of query)"
    and Bu: "\<forall>u \<in> set (queryTerms_of query). u \<noteq> t \<longrightarrow> \<not> str_includes (searchableText B) u"
    and mem: "A \<in> set docs" "B \<in> set docs"
  shows "\<exists>a b out.
           scoreResource termMatches (queryLower_of query) (queryTerms_of query) A = Inr a
         \<and> scoreResource termMatches (queryLower_of query) (queryTerms_of query) B = Inr b
         \<and> b = 30 * int (length (filter (\<lambda>kw. str_includes (toLowerCase kw) t) ks))
         \<and> 100 \<le> a \<and> b < a
         \<and> searchAhaResources termMatches query docs = Inr out
         \<and> (\<exists>xs ys. out = xs @ A # ys \<and> B \<notin> set xs \<and> B \<in> set ys)"
proof -
  let ?ql = "queryLower_of query" and ?ts = "queryTerms_of query"
  let ?k = "length (filter (\<lambda>kw. str_includes (toLowerCase kw) t) ks)"
  obtain out where out: "searchAhaResources termMatches query docs = Inr out"
    using search_plain_returns [OF plain] by blast
  define sc where "sc = (\<lambda>d. projr (scoreResource termMatches ?ql ?ts d))"
  have sorted: "out = sort_key (\<lambda>d. - sc d) (filter (\<lambda>d. 0 < sc d) docs)"
    and ok: "\<forall>d \<in> set docs. scoreResource termMatches ?ql ?ts d = Inr (sc d)"
    using search_is_stable_sort [OF nonblank out] by (simp_all add: sc_def)
  have a: "scoreResource termMatches ?ql ?ts A = Inr (sc A)" and b: "scoreResource termMatches ?ql ?ts B = Inr (sc B)"
    using ok mem by auto
  \<comment> \<open>the document with the phrase\<close>
  have "str_includes (searchableText A) ?ql"
    using text_includes_content A by (rule str_includes_trans)
  then have "phraseScore ?ql A = 100" by (simp add: phraseScore_def)
  moreover have "phraseScore ?ql A + keywordScore ?ql ?ts A \<le> sc A"
    using a by (rule scoreResource_lower_bound)
  moreover have "0 \<le> keywordScore ?ql ?ts A" by (rule keywordScore_nonneg)
  ultimately have a100: "100 \<le> sc A" by simp
  \<comment> \<open>the document with the short keyword term\<close>
  have tf: "termScore termMatches (searchableText B) ?ts = Inr 0"
  proof (rule termScore_zero, intro ballI impI)
    fix u assume u: "u \<in> set ?ts" "2 < length u"
    then have "u \<noteq> t" using t(2) by auto
    then have no: "\<not> str_includes (searchableText B) u" using Bu u(1) by blast
    have "plainTerm u" "u \<noteq> []" using plain u by auto
    then have "termMatches (searchableText B) u = Inr (occurrences u (searchableText B))"
      by (rule termMatches_plain)
    moreover have "occurrences u (searchableText B) = 0"
      using occurrences_pos_iff [OF \<open>u \<noteq> []\<close>, of "searchableText B"] no by simp
    ultimately show "termMatches (searchableText B) u = Inr 0" by simp
  qed
  have ph: "phraseScore ?ql B = 0" using Bq by (simp add: phraseScore_def)
  have ti: "titleScore ?ql B = 0"
    using Bq str_includes_trans [OF text_includes_title, of B ?ql] by (auto simp: titleScore_def)
  have ca: "categoryScore ?ql B = 0"
    using Bq str_includes_trans [OF text_includes_category, of B ?ql] by (auto simp: categoryScore_def)
  have "filter (\<lambda>kw. \<not> str_includes (toLowerCase kw) t \<and>
               (str_includes (toLowerCase kw) ?ql \<or>
                list_ex (\<lambda>u. str_includes (toLowerCase kw) u) ?ts)) ks = []"
  proof -
    have "False" if kw: "kw \<in> set ks" and n: "\<not> str_includes (toLowerCase kw) t"
        and p: "str_includes (toLowerCase kw) ?ql \<or> list_ex (\<lambda>u. str_includes (toLowerCase kw) u) ?ts"
      for kw
    proof -
      have inc: "str_includes (searchableText B) (toLowerCase kw)"
        using Bk kw by (rule text_includes_keyword)
      from p show False
      proof
        assume "str_includes (toLowerCase kw) ?ql"
        with inc have "str_includes (searchableText B) ?ql" by (rule str_includes_trans)
        with Bq show False by simp
      next
        assume "list_ex (\<lambda>u. str_includes (toLowerCase kw) u) ?ts"
        then obtain u where u: "u \<in> set ?ts" "str_includes (toLowerCase kw) u"
          by (auto simp: list_ex_iff)
        then have "u \<noteq> t" using n by auto
        moreover have "str_includes (searchableText B) u" using inc u(2) by (rule str_includes_trans)
        ultimately show False using Bu u(1) by blast
      qed
    qed
    then show ?thesis by (auto simp: filter_empty_conv)
  qed
  then have kw: "keywordScore ?ql ?ts B = 30 * int ?k"
    using Bk by (simp add: keywordScore_def keywordMatches_split [OF t(1)])
  have bval: "sc B = 30 * int ?k"
    using b tf ph ti ca kw by (simp add: scoreResource_def)
  have "1 \<le> int ?k" "int ?k \<le> 3" using k1 k3 by linarith+
  then have pos: "0 < sc B" and less: "sc B < sc A" using bval a100 by linarith+
  from ranked_before [OF sorted mem pos less] a b bval a100 less out show ?thesis by blast
qed

theorem phrase_match_outranks_short_keyword_witness:
  "trim ''hi there'' \<noteq> []
   \<and> queryTerms_of ''hi there'' = [''hi'', ''there''] \<and> plainTerm ''there''
   \<and> str_includes (toLowerCase (content phraseDoc)) (queryLower_of ''hi there'')
   \<and> keywords_r keywordDoc = Some [''hi'']
   \<and> length ''hi'' \<le> 2
   \<and> length (filter (\<lambda>kw. str_includes (toLowerCase kw) ''hi'') [''hi'']) = 1
   \<and> \<not> str_includes (searchableText keywordDoc) (queryLower_of ''hi there'')
   \<and> \<not> str_includes (searchableText keywordDoc) ''there''
   \<and> scoreResource termMatches (queryLower_of ''hi there'') (queryTerms_of ''hi there'') phraseDoc = Inr 105
   \<and> scoreResource termMatches (queryLower_of ''hi there'') (queryTerms_of ''hi there'') keywordDoc = Inr 30
   \<and> (\<exists>out xs ys. searchAhaResources termMatches ''hi there'' [keywordDoc, phraseDoc] = Inr out \<and>
         out = xs @ phraseDoc # ys \<and> keywordDoc \<notin> set xs \<and> keywordDoc \<in> set ys)"
proof -
  have h1: "trim ''hi there'' \<noteq> []" by code_simp
  have ts: "queryTerms_of ''hi there'' = [''hi'', ''there'']" by code_simp
  have pl: "plainTerm ''there''" by code_simp
  have h2: "\<forall>u \<in> set (queryTerms_of ''hi there''). 2 < length u \<longrightarrow> plainTerm u"
    using pl by (simp add: ts)
  have h3: "str_includes (toLowerCase (content phraseDoc)) (queryLower_of ''hi there'')" by code_simp
  have h4: "keywords_r keywordDoc = Some [''hi'']" by (simp add: keywordDoc_def)
  have h5: "''hi'' \<in> set (queryTerms_of ''hi there'')" "length ''hi'' \<le> 2" by (simp_all add: ts)
  have h6: "length (filter (\<lambda>kw. str_includes (toLowerCase kw) ''hi'') [''hi'']) = 1" by code_simp
  have h7: "\<not> str_includes (searchableText keywordDoc) (queryLower_of ''hi there'')" by code_simp
  have no: "\<not> str_includes (searchableText keywordDoc) ''there''" by code_simp
  have h8: "\<forall>u \<in> set (queryTerms_of ''hi there''). u \<noteq> ''hi'' \<longrightarrow> \<not> str_includes (searchableText keywordDoc) u"
    using no by (simp add: ts)
  have s1: "scoreResource termMatches (queryLower_of ''hi there'') (queryTerms_of ''hi there'') phraseDoc = Inr 105"
    by code_simp
  have s2: "scoreResource termMatches (queryLower_of ''hi there'') (queryTerms_of ''hi there'') keywordDoc = Inr 30"
    by code_simp
  have k1: "1 \<le> length (filter (\<lambda>kw. str_includes (toLowerCase kw) ''hi'') [''hi''])"
    and k3: "length (filter (\<lambda>kw. str_includes (toLowerCase kw) ''hi'') [''hi'']) \<le> 3"
    using h6 by simp_all
  have m: "phraseDoc \<in> set [keywordDoc, phraseDoc]" "keywordDoc \<in> set [keywordDoc, phraseDoc]" by simp_all
  from phrase_match_outranks_short_keyword [OF h1 h2 h3 h4 h5 k1 k3 h7 h8 m]
  have "\<exists>out xs ys. searchAhaResources termMatches ''hi there'' [keywordDoc, phraseDoc] = Inr out \<and>
         out = xs @ phraseDoc # ys \<and> keywordDoc \<notin> set xs \<and> keywordDoc \<in> set ys"
    by blast
  with h1 ts pl h3 h4 h5(2) h6 h7 no s1 s2 show ?thesis by blast
qed

text \<open>
  Without the amendment the claim fails. For the query \<^verbatim>\<open>hi\<close> the document whose
  content has \<^verbatim>\<open>hi\<close> scores 100, while the document that shares nothing with the
  query but its keyword \<^verbatim>\<open>hi\<close> scores 130 and comes first: the keywords are part of
  the searchable text, so the keyword earns the phrase bonus as well.
\<close>

theorem whole_query_in_keyword_outranks_phrase:
  "queryLower_of ''hi'' = ''hi'' \<and> queryTerms_of ''hi'' = [''hi'']
   \<and> str_includes (content phraseDoc) (queryLower_of ''hi'')
   \<and> keywords_r keywordDoc = Some [''hi'']
   \<and> \<not> str_includes (toLowerCase (title keywordDoc)) ''hi''
   \<and> \<not> str_includes (toLowerCase (category keywordDoc)) ''hi''
   \<and> \<not> str_includes (toLowerCase (content keywordDoc)) ''hi''
   \<and> scoreResource termMatches (queryLower_of ''hi'') (queryTerms_of ''hi'') phraseDoc = Inr 100
   \<and> scoreResource termMatches (queryLower_of ''hi'') (queryTerms_of ''hi'') keywordDoc = Inr 130
   \<and> searchAhaResources termMatches ''hi'' [phraseDoc, keywordDoc] = Inr [keywordDoc, phraseDoc]"
  by code_simp

subsection \<open>The search and the heap\<close>

lemma set_insertBy: "set (insertBy cmp x ys) = insert x (set ys)"
  by (induction ys) auto

lemma set_sortBy: "set (sortBy cmp xs) = set xs"
  by (induction xs) (simp_all add: sortBy_def set_insertBy)

lemma scoreCells_refs:
  assumes "scoreCells re ql ts h cells = Inr items"
  shows "\<forall>item \<in> set items. ResRef (cellRef item) \<in> set cells"
  using assms
  by (induction cells arbitrary: items) (auto split: cell.splits option.splits sum.splits)

lemma newArray_frame:
  assumes "newArray cells h = (b, h1)"
  shows "b = fresh h" and "fresh h1 = Suc (fresh h)" and "objects h1 = objects h"
    and "arrays h1 = (arrays h)(fresh h \<mapsto> cells)" and "readArray h1 b = cells"
  using assms by (auto simp: newArray_def readArray_def)

lemma sortInPlace_frame:
  "fresh (sortInPlace cmp b h) = fresh h" "objects (sortInPlace cmp b h) = objects h"
  "arrays (sortInPlace cmp b h) = (arrays h)(b \<mapsto> sortBy cmp (readArray h b))"
  "readArray (sortInPlace cmp b h) b = sortBy cmp (readArray h b)"
  by (simp_all add: sortInPlace_def readArray_def)

text \<open>
  Claim C7. Over the heap, whatever the query and however the call ends: the array of
  the collection holds the same references in the same order after the call, no
  resource object has changed, and no array that existed before the call has changed
  (the array that \<^verbatim>\<open>sort\<close> reorders is the new one made by \<^verbatim>\<open>filter\<close>). When the call
  returns, the result is a new array, and each of its elements is a reference that
  the collection holds.
\<close>

theorem search_leaves_collection_unchanged:
  assumes "a < fresh h" and "searchAhaResources_h re query a h = (res, h')"
  shows "arrays h' a = arrays h a
       \<and> objects h' = objects h
       \<and> (\<forall>b. b < fresh h \<longrightarrow> arrays h' b = arrays h b)
       \<and> (\<forall>result. res = Inr result \<longrightarrow>
             fresh h \<le> result \<and> set (readArray h' result) \<subseteq> set (readArray h a))"
proof (cases "query = [] \<or> length (trim query) = 0")
  case True
  then have "res = Inr (fresh h)" and h': "h' = snd (newArray [] h)"
    using assms(2) by (auto simp: searchAhaResources_h_def newArray_def)
  then show ?thesis using assms(1) by (auto simp: newArray_def readArray_def)
next
  case False
  show ?thesis
  proof (cases "scoreCells re (queryLower_of query) (queryTerms_of query) h (readArray h a)")
    case (Inl e)
    then have "res = Inl e" "h' = h" using assms(2) False by (auto simp: searchAhaResources_h_def)
    then show ?thesis by simp
  next
    case (Inr items)
    obtain b1 h1 where n1: "newArray items h = (b1, h1)" by (cases "newArray items h")
    let ?kept = "filter (\<lambda>item. cellScore item > 0) (readArray h1 b1)"
    obtain b2 h2 where n2: "newArray ?kept h1 = (b2, h2)" by (cases "newArray ?kept h1")
    let ?h3 = "sortInPlace (\<lambda>a b. cellScore b - cellScore a) b2 h2"
    let ?final = "map (\<lambda>item. ResRef (cellRef item)) (readArray ?h3 b2)"
    obtain b3 h4 where n3: "newArray ?final ?h3 = (b3, h4)" by (cases "newArray ?final ?h3")
    have res: "res = Inr b3" and h': "h' = h4"
      using assms(2) False Inr n1 n2 n3 by (auto simp: searchAhaResources_h_def)
    note f1 = newArray_frame [OF n1] and f2 = newArray_frame [OF n2] and f3 = newArray_frame [OF n3]
    have b: "b1 = fresh h" "b2 = Suc (fresh h)" "b3 = Suc (Suc (fresh h))"
      using f1(1,2) f2(1,2) f3(1) by (simp_all add: sortInPlace_frame)
    have arr: "arrays h4 = (arrays h)(b1 \<mapsto> items, b2 \<mapsto> sortBy (\<lambda>a b. cellScore b - cellScore a) ?kept,
                 b3 \<mapsto> ?final)"
      using f1 f2 f3 b by (simp add: sortInPlace_frame)
    have old: "arrays h4 c = arrays h c" if "c < fresh h" for c
      using that b by (simp add: arr)
    have obj: "objects h4 = objects h" using f1(3) f2(3) f3(3) by (simp add: sortInPlace_frame)
    have "readArray h4 b3 = ?final" by (rule f3(5))
    also have "readArray ?h3 b2 = sortBy (\<lambda>a b. cellScore b - cellScore a) (readArray h2 b2)"
      by (simp add: sortInPlace_frame)
    also have "readArray h2 b2 = ?kept" by (rule f2(5))
    also have "readArray h1 b1 = items" by (rule f1(5))
    finally have "set (readArray h4 b3) \<subseteq> (\<lambda>item. ResRef (cellRef item)) ` set items"
      by (auto simp: set_sortBy)
    then have sub: "set (readArray h4 b3) \<subseteq> set (readArray h a)"
      using scoreCells_refs [OF Inr] by auto
    show ?thesis using old obj sub assms(1) b by (simp add: res h')
  qed
qed

theorem search_leaves_collection_unchanged_witness:
  "(1::nat) < fresh exampleHeap
   \<and> fst (searchAhaResources_h termMatches ''heart attack'' 1 exampleHeap) = Inr 4
   \<and> readArray (snd (searchAhaResources_h termMatches ''heart attack'' 1 exampleHeap)) 4 = [ResRef 0]
   \<and> arrays (snd (searchAhaResources_h termMatches ''heart attack'' 1 exampleHeap)) 1 = arrays exampleHeap 1
   \<and> objects (snd (searchAhaResources_h termMatches ''heart attack'' 1 exampleHeap)) = objects exampleHeap
   \<and> set (readArray (snd (searchAhaResources_h termMatches ''heart attack'' 1 exampleHeap)) 4)
        \<subseteq> set (readArray exampleHeap 1)"
proof -
  have h1: "(1::nat) < fresh exampleHeap" by (simp add: exampleHeap_def)
  have h2: "searchAhaResources_h termMatches ''heart attack'' 1 exampleHeap =
      (fst (searchAhaResources_h termMatches ''heart attack'' 1 exampleHeap),
       snd (searchAhaResources_h termMatches ''heart attack'' 1 exampleHeap))" by simp
  have r: "fst (searchAhaResources_h termMatches ''heart attack'' 1 exampleHeap) = Inr 4" by code_simp
  have c: "readArray (snd (searchAhaResources_h termMatches ''heart attack'' 1 exampleHeap)) 4 = [ResRef 0]"
    by code_simp
  from search_leaves_collection_unchanged [OF h1 h2] h1 r c show ?thesis by simp
qed

text \<open>
  The two formulations agree: on a well-formed collection the heap version ends as
  the function over lists does, and the returned array refers to the documents of
  that function's result, in the same order.
\<close>

lemma scoreCells_scoreAll:
  assumes "\<forall>p \<in> set ps. objects h p = Some (r p)"
  shows "scoreCells re ql ts h (map ResRef ps) =
     (case scoreAll re ql ts (map r ps) of
        Inl e \<Rightarrow> Inl e
      | Inr items \<Rightarrow> Inr (map (\<lambda>p. Item p (projr (scoreResource re ql ts (r p)))) ps))"
  using assms by (induction ps) (auto split: sum.splits)

lemma search_h_result:
  assumes "\<not> (query = [] \<or> length (trim query) = 0)"
    and "scoreCells re (queryLower_of query) (queryTerms_of query) h (readArray h a) = Inr items"
  shows "fst (searchAhaResources_h re query a h) = Inr (Suc (Suc (fresh h)))"
    and "readArray (snd (searchAhaResources_h re query a h)) (Suc (Suc (fresh h))) =
           map (\<lambda>item. ResRef (cellRef item))
             (sortBy (\<lambda>a b. cellScore b - cellScore a) (filter (\<lambda>item. cellScore item > 0) items))"
  using assms
  by (simp_all add: searchAhaResources_h_def newArray_def sortInPlace_def readArray_def Let_def)

lemma heap_search_refines:
  assumes "readArray h a = map ResRef ps" and "\<forall>p \<in> set ps. objects h p = Some (r p)"
  shows "case searchAhaResources re query (map r ps) of
           Inl e \<Rightarrow> fst (searchAhaResources_h re query a h) = Inl e
         | Inr out \<Rightarrow>
             (\<exists>result qs. fst (searchAhaResources_h re query a h) = Inr result \<and>
                readArray (snd (searchAhaResources_h re query a h)) result = map ResRef qs \<and>
                map r qs = out)"
proof (cases "query = [] \<or> length (trim query) = 0")
  case True
  then show ?thesis
    by (auto simp: searchAhaResources_def searchAhaResources_h_def newArray_def readArray_def)
next
  case False
  let ?ql = "queryLower_of query" and ?ts = "queryTerms_of query"
  define sc where "sc = (\<lambda>d. projr (scoreResource re ?ql ?ts d))"
  have cells: "scoreCells re ?ql ?ts h (readArray h a) =
     (case scoreAll re ?ql ?ts (map r ps) of
        Inl e \<Rightarrow> Inl e
      | Inr items \<Rightarrow> Inr (map (\<lambda>p. Item p (sc (r p))) ps))"
    unfolding assms(1) sc_def using assms(2) by (rule scoreCells_scoreAll)
  show ?thesis
  proof (cases "scoreAll re ?ql ?ts (map r ps)")
    case (Inl e)
    then have "searchAhaResources re query (map r ps) = Inl e"
      using False by (simp add: searchAhaResources_def)
    moreover have "fst (searchAhaResources_h re query a h) = Inl e"
      using False cells Inl by (simp add: searchAhaResources_h_def)
    ultimately show ?thesis by simp
  next
    case (Inr items)
    then obtain out where out: "searchAhaResources re query (map r ps) = Inr out"
      using False by (simp add: searchAhaResources_def)
    have nb: "trim query \<noteq> []" using False by simp
    have pure: "out = sort_key (\<lambda>d. - sc d) (filter (\<lambda>d. 0 < sc d) (map r ps))"
      using search_is_stable_sort(1) [OF nb out] by (simp add: sc_def)
    let ?ps' = "filter (\<lambda>p. 0 < sc (r p)) ps"
    let ?qs = "sort_key (\<lambda>p. - sc (r p)) ?ps'"
    have sc: "scoreCells re ?ql ?ts h (readArray h a) = Inr (map (\<lambda>p. Item p (sc (r p))) ps)"
      using cells Inr by simp
    have kept: "filter (\<lambda>item. cellScore item > 0) (map (\<lambda>p. Item p (sc (r p))) ps)
        = map (\<lambda>p. Item p (sc (r p))) ?ps'"
      by (simp add: filter_map comp_def)
    have "sortBy (\<lambda>a b. cellScore b - cellScore a) ys = sort_key (\<lambda>c. - cellScore c) ys" for ys
      by (rule sortBy_sort_key) auto
    then have sorted: "sortBy (\<lambda>a b. cellScore b - cellScore a) (map (\<lambda>p. Item p (sc (r p))) ?ps')
        = map (\<lambda>p. Item p (sc (r p))) ?qs"
      by (simp add: sort_key_map)
    have "readArray (snd (searchAhaResources_h re query a h)) (Suc (Suc (fresh h))) = map ResRef ?qs"
      using search_h_result(2) [OF False sc] by (simp add: kept sorted comp_def)
    moreover have "fst (searchAhaResources_h re query a h) = Inr (Suc (Suc (fresh h)))"
      by (rule search_h_result(1) [OF False sc])
    moreover have "map r ?qs = out"
      by (simp add: pure sort_key_map filter_map comp_def)
    ultimately show ?thesis using out by auto
  qed
qed

end
